theory Spec2Isabelle
  imports Main "HOL-Library.AList" "HOL-Library.While_Combinator"
begin

section \<open>The pattern engine (general\_searching.py)\<close>

subsection \<open>Values, streams and positions\<close>

text \<open>
  Python exceptions are values.  \<open>NoMatch\<close> is the module's private \<open>_NoMatch\<close>;
  the others are the built-in exceptions the code can raise.
\<close>

datatype error = TypeError | IndexError | KeyError | ValueError | AssertionError
  | ZeroDivisionError | AttributeError | NoMatch

text \<open>
  A stream is a Python \<open>Sequence[T]\<close>.  Only \<open>StringMatch\<close> asks whether the
  sequence is a \<open>str\<close>, so the stream carries that bit: \<open>PyStr\<close> is a \<open>str\<close> (its
  tokens are its characters), \<open>PySeq\<close> any other sequence.
\<close>

datatype 'a seq = PyStr "'a list" | PySeq "'a list"

fun elems :: "'a seq \<Rightarrow> 'a list" where
  "elems (PyStr xs) = xs"
| "elems (PySeq xs) = xs"

definition len :: "'a seq \<Rightarrow> nat" where
  "len s = length (elems s)"

text \<open>\<open>stream[i]\<close> for an index the caller has checked to be in range.\<close>

definition item :: "'a seq \<Rightarrow> nat \<Rightarrow> 'a" where
  "item s i = elems s ! i"

text \<open>\<open>stream[a:b]\<close> for non-negative \<open>a\<close>, \<open>b\<close>: slicing clips, it never raises.\<close>

definition slice :: "'a seq \<Rightarrow> nat \<Rightarrow> nat \<Rightarrow> 'a list" where
  "slice s a b = take (b - a) (drop a (elems s))"

text \<open>
  What a \<open>match\<close> generator yields, and what the next pattern receives as \<open>start\<close>.
  Every yield of the module is an index, but for the first yield of \<open>Repeat.match\<close>,
  which is written \<open>yield start, {}\<close> and so yields the tuple \<open>(start, {})\<close>:
  \<open>Tup p\<close> is that tuple around \<open>p\<close>.  Indices and lengths are taken non-negative.
\<close>

datatype pos = Idx nat | Tup pos

subsection \<open>The capture store\<close>

type_synonym name = string

text \<open>
  A captured value: a token (\<open>stream[start]\<close>), a slice of the stream, the stack count
  of the stack-effect matcher, or any other object a \<open>FunctionMatch\<close> predicate returns
  in its mapping.
\<close>

datatype ('a, 'v) cval = Token 'a | Slice "'a list" | Count int | Other 'v

text \<open>A \<open>dict\<close> in insertion order; \<open>AList.update\<close> is Python's item assignment.\<close>

type_synonym ('a, 'v) dict = "(name \<times> ('a, 'v) cval) list"

text \<open>
  \<open>Captures\<close>: \<open>internal\<close> is the \<open>ChainMap\<close>'s list \<open>maps\<close> (innermost scope
  first; a \<open>ChainMap\<close> always has at least one map), \<open>keys\<close> is the list \<open>_keys\<close> in
  Python's order (the last element is the most recent).  A key is a fresh \<open>object()\<close>,
  compared by identity: \<open>next_key\<close> numbers the objects created so far.
\<close>

record ('a, 'v) Captures =
  internal :: "('a, 'v) dict list"
  keys :: "nat list"
  next_key :: nat

definition new_Captures :: "('a, 'v) Captures" where
  "new_Captures = \<lparr>internal = [[]], keys = [], next_key = 0\<rparr>"

text \<open>\<open>ChainMap.parents\<close>: the maps after the first; a \<open>ChainMap\<close> of no maps gets one.\<close>

definition parents :: "('a, 'v) dict list \<Rightarrow> ('a, 'v) dict list" where
  "parents ms = (case tl ms of [] \<Rightarrow> [[]] | m # r \<Rightarrow> m # r)"

definition enter :: "('a, 'v) Captures \<Rightarrow> nat \<times> ('a, 'v) Captures" where
  "enter c = (next_key c,
     c\<lparr>internal := [] # internal c, keys := keys c @ [next_key c],
       next_key := Suc (next_key c)\<rparr>)"

text \<open>\<open>exit\<close>: \<open>_keys.pop()\<close> raises on an empty list, then the assertion compares.\<close>

definition exit :: "nat \<Rightarrow> ('a, 'v) Captures \<Rightarrow> error + ('a, 'v) Captures" where
  "exit key c =
     (if keys c = [] then Inl IndexError
      else if key \<noteq> last (keys c) then Inl AssertionError
      else Inr (c\<lparr>keys := butlast (keys c), internal := parents (internal c)\<rparr>))"

text \<open>\<open>__setitem__\<close>: a \<open>ChainMap\<close> writes to its first map.\<close>

definition setitem :: "name \<Rightarrow> ('a, 'v) cval \<Rightarrow> ('a, 'v) Captures \<Rightarrow> ('a, 'v) Captures" where
  "setitem n v c =
     c\<lparr>internal := (case internal c of [] \<Rightarrow> [[(n, v)]]
                               | m # r \<Rightarrow> AList.update n v m # r)\<rparr>"

definition maybe :: "name option \<Rightarrow> ('a, 'v) cval \<Rightarrow> ('a, 'v) Captures \<Rightarrow> ('a, 'v) Captures" where
  "maybe nm v c = (case nm of None \<Rightarrow> c | Some n \<Rightarrow> setitem n v c)"

text \<open>\<open>__getitem__\<close>: the first map that has the key; \<open>KeyError\<close> if none has.\<close>

fun chain_lookup :: "('a, 'v) dict list \<Rightarrow> name \<Rightarrow> ('a, 'v) cval option" where
  "chain_lookup [] n = None"
| "chain_lookup (m # ms) n = (case map_of m n of Some v \<Rightarrow> Some v | None \<Rightarrow> chain_lookup ms n)"

definition getitem :: "('a, 'v) Captures \<Rightarrow> name \<Rightarrow> error + ('a, 'v) cval" where
  "getitem c n = (case chain_lookup (internal c) n of None \<Rightarrow> Inl KeyError | Some v \<Rightarrow> Inr v)"

text \<open>\<open>Captures.extend\<close>: \<open>update\<close> writes every item of \<open>r\<close>, in order, to the first map.\<close>

definition Captures_extend :: "('a, 'v) dict \<Rightarrow> ('a, 'v) Captures \<Rightarrow> ('a, 'v) Captures" where
  "Captures_extend r c = fold (\<lambda>(n, v). setitem n v) r c"

text \<open>
  \<open>to_dict\<close>: \<open>dict(chain_map)\<close> lists the keys from the outermost map inwards and
  reads each through the chain, so that the innermost binding wins.
\<close>

definition to_dict :: "('a, 'v) Captures \<Rightarrow> ('a, 'v) dict" where
  "to_dict c =
     map (\<lambda>n. (n, the (chain_lookup (internal c) n)))
         (remdups (concat (map (map fst) (rev (internal c)))))"

subsection \<open>Patterns\<close>

text \<open>What a \<open>FunctionMatch\<close> predicate returns: \<open>None\<close>, a \<open>bool\<close> or a \<open>dict\<close>.\<close>

datatype ('a, 'v) fm_result = RNone | RBool bool | RDict "('a, 'v) dict"

text \<open>\<open>Any.length\<close> is an \<open>int\<close> or a sequence of them.\<close>

datatype any_length = LInt nat | LSeq "nat list"

text \<open>
  The \<open>Pattern\<close> classes.  \<open>Repeat\<close> keeps \<open>min\<close>, \<open>max\<close> (\<open>None\<close>: unbounded) and
  \<open>step\<close> as Python integers.  \<open>StackEffectMatcher\<close> (instruction\_pattern.py) holds
  the token's \<open>stack_effect\<close> method, its \<open>target\<close> as a predicate, and its capture name.
\<close>

datatype ('a, 'v) pattern =
    Alternation "('a, 'v) pattern list"
  | Lookahead "('a, 'v) pattern" bool
  | EOS
  | Concatenation "('a, 'v) pattern list"
  | Repeat "('a, 'v) pattern" int "int option" int
  | Any "name option" any_length
  | DirectMatch 'a "name option"
  | FunctionMatch "('a, 'v) Captures \<Rightarrow> 'a \<Rightarrow> error + ('a, 'v) fm_result" "name option"
  | AnyOfMatch "'a list" "name option"
  | StringMatch "'a list"
  | StackEffectMatcher "'a \<Rightarrow> int" "int \<Rightarrow> bool" "name option"

subsection \<open>Composition operators\<close>

text \<open>
  \<open>p + q\<close> calls \<open>type(p).__add__(p, q)\<close>.  No pattern class is a subclass of another
  concrete one, and \<open>Pattern.__add__\<close> never returns \<open>NotImplemented\<close>, so the
  reflected \<open>__radd__\<close> of \<open>q\<close> is never tried when \<open>p\<close> is a pattern.
\<close>

definition Pattern_add :: "('a, 'v) pattern \<Rightarrow> ('a, 'v) pattern \<Rightarrow> ('a, 'v) pattern" where
  "Pattern_add self other = Concatenation [self, other]"

definition Pattern_or :: "('a, 'v) pattern \<Rightarrow> ('a, 'v) pattern \<Rightarrow> ('a, 'v) pattern" where
  "Pattern_or self other = Alternation [self, other]"

definition Concatenation_add :: "('a, 'v) pattern list \<Rightarrow> ('a, 'v) pattern \<Rightarrow> ('a, 'v) pattern" where
  "Concatenation_add patterns other =
     (case other of Concatenation qs \<Rightarrow> Concatenation (patterns @ qs)
                  | _ \<Rightarrow> Concatenation (patterns @ [other]))"

definition Concatenation_radd :: "('a, 'v) pattern list \<Rightarrow> ('a, 'v) pattern \<Rightarrow> ('a, 'v) pattern" where
  "Concatenation_radd patterns other =
     (case other of Concatenation qs \<Rightarrow> Concatenation (qs @ patterns)
                  | _ \<Rightarrow> Concatenation (other # patterns))"

definition Alternation_or :: "('a, 'v) pattern list \<Rightarrow> ('a, 'v) pattern \<Rightarrow> ('a, 'v) pattern" where
  "Alternation_or patterns other =
     (case other of Alternation qs \<Rightarrow> Alternation (patterns @ qs)
                  | _ \<Rightarrow> Alternation (patterns @ [other]))"

definition Alternation_ror :: "('a, 'v) pattern list \<Rightarrow> ('a, 'v) pattern \<Rightarrow> ('a, 'v) pattern" where
  "Alternation_ror patterns other =
     (case other of Alternation qs \<Rightarrow> Alternation (qs @ patterns)
                  | _ \<Rightarrow> Alternation (other # patterns))"

text \<open>The operators \<open>p + q\<close> and \<open>p | q\<close>, dispatched on the class of the left operand.\<close>

definition add :: "('a, 'v) pattern \<Rightarrow> ('a, 'v) pattern \<Rightarrow> ('a, 'v) pattern" where
  "add p q = (case p of Concatenation ps \<Rightarrow> Concatenation_add ps q | _ \<Rightarrow> Pattern_add p q)"

definition or :: "('a, 'v) pattern \<Rightarrow> ('a, 'v) pattern \<Rightarrow> ('a, 'v) pattern" where
  "or p q = (case p of Alternation ps \<Rightarrow> Alternation_or ps q | _ \<Rightarrow> Pattern_or p q)"

text \<open>The element list the specification reads off an operand of \<open>+\<close> and of \<open>|\<close>.\<close>

definition cat_elems :: "('a, 'v) pattern \<Rightarrow> ('a, 'v) pattern list" where
  "cat_elems p = (case p of Concatenation ps \<Rightarrow> ps | _ \<Rightarrow> [p])"

definition alt_elems :: "('a, 'v) pattern \<Rightarrow> ('a, 'v) pattern list" where
  "alt_elems p = (case p of Alternation ps \<Rightarrow> ps | _ \<Rightarrow> [p])"

definition is_Concatenation :: "('a, 'v) pattern \<Rightarrow> bool" where
  "is_Concatenation p = (case p of Concatenation ps \<Rightarrow> True | _ \<Rightarrow> False)"

definition is_Alternation :: "('a, 'v) pattern \<Rightarrow> bool" where
  "is_Alternation p = (case p of Alternation ps \<Rightarrow> True | _ \<Rightarrow> False)"

subsection \<open>Generators\<close>

text \<open>
  \<open>p.match(stream, start, captures)\<close> is a generator: calling it runs nothing, and each
  \<open>next\<close> runs its body up to the following \<open>yield\<close>.  A generator is modelled by the
  place where it is suspended, with the values of its local variables:
  \<open>Fresh\<close> is a generator whose body has not started, \<open>Done\<close> one that has returned,
  a constructor ending in \<open>Y\<close> one suspended at a \<open>yield\<close>, and a constructor ending
  in \<open>Loop\<close> the head of a loop of a body that is running.  The three stacks of
  \<open>Concatenation.match\<close> and \<open>Repeat.match\<close> are Python lists, kept in Python's
  order: \<open>append\<close> adds at the end and \<open>pop\<close> removes the last element.
\<close>

datatype ('a, 'v) gen =
    Fresh "('a, 'v) pattern" pos
  | Done
  | AltLoop "('a, 'v) pattern list" pos
  | AltY "('a, 'v) pattern list" pos nat "('a, 'v) gen"
  | LookY pos nat "('a, 'v) gen"
  | CatLoop "('a, 'v) pattern list" "nat list" "('a, 'v) gen list" "pos list"
  | CatY "('a, 'v) pattern list" "nat list" "('a, 'v) gen list" "pos list"
  | RepY0 "('a, 'v) pattern" int "int option" int pos
  | RepLoop "('a, 'v) pattern" int "int option" int "nat list" "('a, 'v) gen list" "pos list"
  | RepY "('a, 'v) pattern" int "int option" int "nat list" "('a, 'v) gen list" "pos list"
  | AnyLoop "name option" nat "nat list"
  | AnyY "name option" nat nat "nat list"
  | SELoop "'a \<Rightarrow> int" "int \<Rightarrow> bool" "name option" nat int
  | SEY "'a \<Rightarrow> int" "int \<Rightarrow> bool" "name option" nat int nat

text \<open>
  One \<open>next\<close> on a generator: it yields a value and is suspended again, it returns
  (\<open>StopIteration\<close>), or it raises.  Each outcome carries the capture store it leaves.
\<close>

datatype ('a, 'v) step =
    Yield pos "('a, 'v) gen" "('a, 'v) Captures"
  | Stop "('a, 'v) Captures"
  | Raise error

subsection \<open>The leaf patterns\<close>

text \<open>
  The bodies of the patterns that yield at most once.  Comparing the tuple of
  \<open>Repeat\<close>'s first yield with \<open>len(stream)\<close>, or adding an integer to it, is a
  \<open>TypeError\<close>.
\<close>

definition DirectMatch_match ::
  "'a \<Rightarrow> name option \<Rightarrow> 'a seq \<Rightarrow> pos \<Rightarrow> ('a, 'v) Captures \<Rightarrow> ('a, 'v) step" where
  "DirectMatch_match val cap stream start captures =
     (case start of Tup t \<Rightarrow> Raise TypeError
      | Idx n \<Rightarrow>
          if n \<ge> len stream then Stop captures
          else if item stream n = val
               then Yield (Idx (n + 1)) Done (maybe cap (Token (item stream n)) captures)
               else Stop captures)"

definition AnyOfMatch_match ::
  "'a list \<Rightarrow> name option \<Rightarrow> 'a seq \<Rightarrow> pos \<Rightarrow> ('a, 'v) Captures \<Rightarrow> ('a, 'v) step" where
  "AnyOfMatch_match options cap stream start captures =
     (case start of Tup t \<Rightarrow> Raise TypeError
      | Idx n \<Rightarrow>
          if n \<ge> len stream then Stop captures
          else if item stream n \<in> set options
               then Yield (Idx (n + 1)) Done (maybe cap (Token (item stream n)) captures)
               else Stop captures)"

text \<open>
  \<open>FunctionMatch\<close> rejects on \<open>None\<close>, on \<open>False\<close> and on anything falsy that is
  not the empty mapping; it binds the token, then the items of a returned mapping.
\<close>

definition FunctionMatch_match ::
  "(('a, 'v) Captures \<Rightarrow> 'a \<Rightarrow> error + ('a, 'v) fm_result) \<Rightarrow> name option \<Rightarrow> 'a seq \<Rightarrow> pos
     \<Rightarrow> ('a, 'v) Captures \<Rightarrow> ('a, 'v) step" where
  "FunctionMatch_match func cap stream start captures =
     (case start of Tup t \<Rightarrow> Raise TypeError
      | Idx n \<Rightarrow>
          if n \<ge> len stream then Stop captures
          else (case func captures (item stream n) of
                  Inl e \<Rightarrow> Raise e
                | Inr RNone \<Rightarrow> Stop captures
                | Inr (RBool b) \<Rightarrow>
                    if b then Yield (Idx (n + 1)) Done (maybe cap (Token (item stream n)) captures)
                    else Stop captures
                | Inr (RDict r) \<Rightarrow>
                    Yield (Idx (n + 1)) Done
                      (Captures_extend r (maybe cap (Token (item stream n)) captures))))"

definition EOS_match :: "'a seq \<Rightarrow> pos \<Rightarrow> ('a, 'v) Captures \<Rightarrow> ('a, 'v) step" where
  "EOS_match stream start captures =
     (case start of Tup t \<Rightarrow> Raise TypeError
      | Idx n \<Rightarrow> if n \<ge> len stream then Yield (Idx n) Done captures else Stop captures)"

text \<open>\<open>Any\<close> with an \<open>int\<close> length.\<close>

definition Any_match_int ::
  "name option \<Rightarrow> nat \<Rightarrow> 'a seq \<Rightarrow> pos \<Rightarrow> ('a, 'v) Captures \<Rightarrow> ('a, 'v) step" where
  "Any_match_int cap l stream start captures =
     (case start of Tup t \<Rightarrow> Raise TypeError
      | Idx n \<Rightarrow>
          if n \<ge> len stream then Stop captures
          else if n + l > len stream then Stop captures
          else Yield (Idx (n + l)) Done
                 (maybe cap (Slice (slice stream n (n + l))) captures))"

text \<open>
  \<open>StringMatch\<close>: on a \<open>str\<close> it compares a slice; on any other sequence it returns
  when \<open>len(stream) >= start\<close> and otherwise indexes past the end.
\<close>

definition StringMatch_match ::
  "'a list \<Rightarrow> 'a seq \<Rightarrow> pos \<Rightarrow> ('a, 'v) Captures \<Rightarrow> ('a, 'v) step" where
  "StringMatch_match str stream start captures =
     (case start of Tup t \<Rightarrow> Raise TypeError
      | Idx n \<Rightarrow>
          (case stream of
             PyStr cs \<Rightarrow>
               if slice stream n (n + length str) = str
               then Yield (Idx (n + length str)) Done captures
               else Stop captures
           | PySeq xs \<Rightarrow>
               if len stream \<ge> n then Stop captures else Raise IndexError))"

subsection \<open>Running a generator\<close>

text \<open>
  \<open>next fuel stream g captures\<close> is one \<open>next(g)\<close>.  A pattern can loop without ever
  yielding (an unbounded \<open>Repeat\<close> of a zero-width pattern inside a \<open>Concatenation\<close>),
  so the run is measured: every call and every turn of a loop costs one unit of fuel,
  and \<open>None\<close> says that the fuel ran out before the generator yielded, returned or
  raised.  An exception that is not \<open>StopIteration\<close> propagates through every caller.
\<close>

fun "next" :: "nat \<Rightarrow> 'a seq \<Rightarrow> ('a, 'v) gen \<Rightarrow> ('a, 'v) Captures \<Rightarrow> ('a, 'v) step option" where
  "next 0 stream g captures = None"
| "next (Suc f) stream Done captures = Some (Stop captures)"
| "next (Suc f) stream (Fresh p start) captures =
     (case p of
        DirectMatch val cap \<Rightarrow> Some (DirectMatch_match val cap stream start captures)
      | AnyOfMatch options cap \<Rightarrow> Some (AnyOfMatch_match options cap stream start captures)
      | FunctionMatch func cap \<Rightarrow> Some (FunctionMatch_match func cap stream start captures)
      | EOS \<Rightarrow> Some (EOS_match stream start captures)
      | StringMatch str \<Rightarrow> Some (StringMatch_match str stream start captures)
      | Any cap (LInt l) \<Rightarrow> Some (Any_match_int cap l stream start captures)
      | Any cap (LSeq ls) \<Rightarrow>
          (case start of Tup t \<Rightarrow> Some (Raise TypeError)
           | Idx n \<Rightarrow> if n \<ge> len stream then Some (Stop captures)
                      else next f stream (AnyLoop cap n ls) captures)
      | StackEffectMatcher effect target cap \<Rightarrow>
          (case start of Tup t \<Rightarrow> Some (Raise TypeError)
           | Idx n \<Rightarrow> next f stream (SELoop effect target cap n 0) captures)
      | Alternation ps \<Rightarrow> next f stream (AltLoop ps start) captures
      | Lookahead base no_captures \<Rightarrow>
          (case enter captures of (k, c1) \<Rightarrow> next f stream (LookY start k (Fresh base start)) c1)
      | Concatenation ps \<Rightarrow>
          (case enter captures of (k, c1) \<Rightarrow>
             (case ps of [] \<Rightarrow> Some (Raise IndexError)
              | p0 # rest \<Rightarrow> next f stream (CatLoop ps [k] [Fresh p0 start] []) c1))
      | Repeat base mn mx stp \<Rightarrow>
          if mn = 0 then Some (Yield (Tup start) (RepY0 base mn mx stp start) captures)
          else (case enter captures of (k, c1) \<Rightarrow>
                  next f stream (RepLoop base mn mx stp [k] [Fresh base start] []) c1))"
| "next (Suc f) stream (AnyLoop cap n ls) captures =
     (case ls of [] \<Rightarrow> Some (Stop captures)
      | l # rest \<Rightarrow>
          if n + l > len stream then next f stream (AnyLoop cap n rest) captures
          else (case enter captures of (k, c1) \<Rightarrow>
                  Some (Yield (Idx (n + l)) (AnyY cap n k rest)
                          (maybe cap (Slice (slice stream n (n + l))) c1))))"
| "next (Suc f) stream (AnyY cap n k rest) captures =
     (case exit k captures of Inl e \<Rightarrow> Some (Raise e)
      | Inr c1 \<Rightarrow> next f stream (AnyLoop cap n rest) c1)"
| "next (Suc f) stream (SELoop effect target cap i stack) captures =
     (if i < len stream
      then (let stack' = stack + effect (item stream i) in
            if target stack'
            then (case enter captures of (k, c1) \<Rightarrow>
                    Some (Yield (Idx (i + 1)) (SEY effect target cap i stack' k)
                            (maybe cap (Count stack') c1)))
            else next f stream (SELoop effect target cap (i + 1) stack') captures)
      else Some (Stop captures))"
| "next (Suc f) stream (SEY effect target cap i stack k) captures =
     (case exit k captures of Inl e \<Rightarrow> Some (Raise e)
      | Inr c1 \<Rightarrow> next f stream (SELoop effect target cap (i + 1) stack) c1)"
| "next (Suc f) stream (AltLoop ps start) captures =
     (case ps of [] \<Rightarrow> Some (Stop captures)
      | p # rest \<Rightarrow>
          (case enter captures of (k, c1) \<Rightarrow> next f stream (AltY rest start k (Fresh p start)) c1))"
| "next (Suc f) stream (AltY rest start k sub) captures =
     (case next f stream sub captures of
        None \<Rightarrow> None
      | Some (Raise e) \<Rightarrow> Some (Raise e)
      | Some (Yield r sub' c1) \<Rightarrow> Some (Yield r (AltY rest start k sub') c1)
      | Some (Stop c1) \<Rightarrow>
          (case exit k c1 of Inl e \<Rightarrow> Some (Raise e)
           | Inr c2 \<Rightarrow> next f stream (AltLoop rest start) c2))"
| "next (Suc f) stream (LookY start k sub) captures =
     (case next f stream sub captures of
        None \<Rightarrow> None
      | Some (Raise e) \<Rightarrow> Some (Raise e)
      | Some (Yield r sub' c1) \<Rightarrow> Some (Yield start (LookY start k sub') c1)
      | Some (Stop c1) \<Rightarrow>
          (case exit k c1 of Inl e \<Rightarrow> Some (Raise e) | Inr c2 \<Rightarrow> Some (Stop c2)))"
| "next (Suc f) stream (CatLoop patterns keys_stack iter_stack result_stack) captures =
     (if iter_stack = [] then Some (Stop captures)
      else if length iter_stack \<noteq> length keys_stack then Some (Raise AssertionError)
      else if length result_stack < length iter_stack then
        (case next f stream (iter_stack ! length result_stack) captures of
           None \<Rightarrow> None
         | Some (Raise e) \<Rightarrow> Some (Raise e)
         | Some (Yield r g' c1) \<Rightarrow>
             next f stream
               (CatLoop patterns keys_stack (iter_stack[length result_stack := g'])
                  (result_stack @ [r])) c1
         | Some (Stop c1) \<Rightarrow>
             (case exit (last keys_stack) c1 of Inl e \<Rightarrow> Some (Raise e)
              | Inr c2 \<Rightarrow>
                  if result_stack = [] then Some (Stop c2)
                  else next f stream
                         (CatLoop patterns (butlast keys_stack)
                            (butlast (iter_stack[length result_stack := Done]))
                            (butlast result_stack)) c2))
      else if length iter_stack < length patterns then
        (case enter captures of (k, c1) \<Rightarrow>
           next f stream
             (CatLoop patterns (keys_stack @ [k])
                (iter_stack @ [Fresh (patterns ! length iter_stack) (last result_stack)])
                result_stack) c1)
      else if length result_stack = length iter_stack \<and> length iter_stack = length patterns then
        Some (Yield (last result_stack) (CatY patterns keys_stack iter_stack result_stack) captures)
      else next f stream (CatLoop patterns keys_stack iter_stack result_stack) captures)"
| "next (Suc f) stream (CatY patterns keys_stack iter_stack result_stack) captures =
     next f stream (CatLoop patterns keys_stack iter_stack (butlast result_stack)) captures"
| "next (Suc f) stream (RepY0 base mn mx stp start) captures =
     (case enter captures of (k, c1) \<Rightarrow>
        next f stream (RepLoop base mn mx stp [k] [Fresh base start] []) c1)"
| "next (Suc f) stream (RepLoop base mn mx stp keys_stack iter_stack result_stack) captures =
     (if iter_stack = [] then Some (Stop captures)
      else if length iter_stack \<noteq> length keys_stack then Some (Raise AssertionError)
      else if length result_stack < length iter_stack then
        (case next f stream (iter_stack ! length result_stack) captures of
           None \<Rightarrow> None
         | Some (Raise e) \<Rightarrow> Some (Raise e)
         | Some (Yield r g' c1) \<Rightarrow>
             next f stream
               (RepLoop base mn mx stp keys_stack (iter_stack[length result_stack := g'])
                  (result_stack @ [r])) c1
         | Some (Stop c1) \<Rightarrow>
             (case exit (last keys_stack) c1 of Inl e \<Rightarrow> Some (Raise e)
              | Inr c2 \<Rightarrow>
                  if butlast (iter_stack[length result_stack := Done]) = [] then Some (Stop c2)
                  else if result_stack = [] then Some (Raise IndexError)
                  else next f stream
                         (RepLoop base mn mx stp (butlast keys_stack)
                            (butlast (iter_stack[length result_stack := Done]))
                            (butlast result_stack)) c2))
      else if int (length iter_stack) < mn then
        (case enter captures of (k, c1) \<Rightarrow>
           next f stream
             (RepLoop base mn mx stp (keys_stack @ [k])
                (iter_stack @ [Fresh base (last result_stack)]) result_stack) c1)
      else if length result_stack = length iter_stack then
        (if stp = 0 then Some (Raise ZeroDivisionError)
         else if (int (length iter_stack) - mn) mod stp = 0
         then Some (Yield (last result_stack)
                      (RepY base mn mx stp keys_stack iter_stack result_stack) captures)
         else next f stream (RepY base mn mx stp keys_stack iter_stack result_stack) captures)
      else next f stream (RepLoop base mn mx stp keys_stack iter_stack result_stack) captures)"
| "next (Suc f) stream (RepY base mn mx stp keys_stack iter_stack result_stack) captures =
     (if (case mx of None \<Rightarrow> True | Some m \<Rightarrow> int (length iter_stack) < m)
      then (case enter captures of (k, c1) \<Rightarrow>
              next f stream
                (RepLoop base mn mx stp (keys_stack @ [k])
                   (iter_stack @ [Fresh base (last result_stack)]) result_stack) c1)
      else next f stream
             (RepLoop base mn mx stp keys_stack iter_stack (butlast result_stack)) captures)"

text \<open>
  Pulling a generator until it is exhausted, as \<open>for i in g: ...\<close> with a body that
  leaves the captures alone: the values yielded, each with the store at its yield,
  and the store the generator leaves behind.
\<close>

fun drain :: "nat \<Rightarrow> 'a seq \<Rightarrow> ('a, 'v) gen \<Rightarrow> ('a, 'v) Captures
    \<Rightarrow> (error + (pos \<times> ('a, 'v) Captures) list \<times> ('a, 'v) Captures) option" where
  "drain 0 stream g captures = None"
| "drain (Suc f) stream g captures =
     (case next f stream g captures of
        None \<Rightarrow> None
      | Some (Raise e) \<Rightarrow> Some (Inl e)
      | Some (Stop c1) \<Rightarrow> Some (Inr ([], c1))
      | Some (Yield r g' c1) \<Rightarrow>
          (case drain f stream g' c1 of
             None \<Rightarrow> None
           | Some (Inl e) \<Rightarrow> Some (Inl e)
           | Some (Inr (rs, c2)) \<Rightarrow> Some (Inr ((r, c1) # rs, c2))))"

subsection \<open>The first-match driver\<close>

record ('a, 'v) MatchResult =
  mr_start :: nat
  mr_end :: pos
  mr_orig :: "'a seq"
  mr_captures :: "('a, 'v) dict"

text \<open>
  \<open>MatcherFirst._match(stream, start)\<close>: the first value the pattern's generator
  yields, or \<open>_NoMatch\<close>.  The generator is created by
  \<open>self.pattern.match(stream, 0, captures)\<close> and the result is
  \<open>MatchResult(0, i, ...)\<close>: the parameter \<open>start\<close> is not used.
\<close>

definition MatcherFirst__match ::
  "nat \<Rightarrow> ('a, 'v) pattern \<Rightarrow> 'a seq \<Rightarrow> nat \<Rightarrow> (error + ('a, 'v) MatchResult) option" where
  "MatcherFirst__match fuel pattern stream start =
     (case next fuel stream (Fresh pattern (Idx 0)) new_Captures of
        None \<Rightarrow> None
      | Some (Raise e) \<Rightarrow> Some (Inl e)
      | Some (Stop c) \<Rightarrow> Some (Inl NoMatch)
      | Some (Yield i g c) \<Rightarrow>
          Some (Inr \<lparr>mr_start = 0, mr_end = i, mr_orig = stream, mr_captures = to_dict c\<rparr>))"

text \<open>\<open>MatcherFirst.match\<close>: \<open>_NoMatch\<close> becomes \<open>None\<close>, any other exception passes.\<close>

definition MatcherFirst_match ::
  "nat \<Rightarrow> ('a, 'v) pattern \<Rightarrow> 'a seq \<Rightarrow> (error + ('a, 'v) MatchResult option) option" where
  "MatcherFirst_match fuel pattern stream =
     (case MatcherFirst__match fuel pattern stream 0 of
        None \<Rightarrow> None
      | Some (Inr r) \<Rightarrow> Some (Inr (Some r))
      | Some (Inl e) \<Rightarrow> if e = NoMatch then Some (Inr None) else Some (Inl e))"

text \<open>
  \<open>MatcherFirst.search\<close>: the loop \<open>while start < len(stream)\<close>, from \<open>start\<close>; a
  loop that ends without a \<open>return\<close> makes the method return \<open>None\<close>.
\<close>

function search_loop ::
  "nat \<Rightarrow> ('a, 'v) pattern \<Rightarrow> 'a seq \<Rightarrow> nat \<Rightarrow> (error + ('a, 'v) MatchResult option) option" where
  "search_loop fuel pattern stream start =
     (if start < len stream
      then (case MatcherFirst__match fuel pattern stream start of
              None \<Rightarrow> None
            | Some (Inr r) \<Rightarrow> Some (Inr (Some r))
            | Some (Inl e) \<Rightarrow>
                if e = NoMatch then search_loop fuel pattern stream (start + 1)
                else Some (Inl e))
      else Some (Inr None))"
  by pat_completeness auto
termination
  by (relation "measure (\<lambda>(fuel, pattern, stream, start). len stream - start)") auto

definition search ::
  "nat \<Rightarrow> ('a, 'v) pattern \<Rightarrow> 'a seq \<Rightarrow> (error + ('a, 'v) MatchResult option) option" where
  "search fuel pattern stream = search_loop fuel pattern stream 0"

text \<open>
  What the specification asks of \<open>search\<close>: the pattern has an emission at \<open>start\<close>
  when its generator, started there on a new store, yields.
\<close>

definition emits_at :: "nat \<Rightarrow> ('a, 'v) pattern \<Rightarrow> 'a seq \<Rightarrow> nat \<Rightarrow> bool" where
  "emits_at fuel pattern stream start =
     (case next fuel stream (Fresh pattern (Idx start)) new_Captures of
        Some (Yield i g c) \<Rightarrow> True
      | _ \<Rightarrow> False)"

section \<open>The assembler (basic\_assembler.py)\<close>

subsection \<open>Python values\<close>

text \<open>
  The values an operand or a table entry can be, as far as the assembler looks at
  them: it compares them with \<open>==\<close>, compares their types, and tests for \<open>int\<close> and
  for \<open>Label\<close>.  \<open>BasicBlockTarget t off\<close> is the only \<open>Label\<close> class.
\<close>

datatype pyval = PNone | PBool bool | PInt int | PStr string | BasicBlockTarget nat nat

text \<open>Python's \<open>==\<close>: a \<open>bool\<close> is the integer 0 or 1; values of other kinds differ.\<close>

fun py_eq :: "pyval \<Rightarrow> pyval \<Rightarrow> bool" where
  "py_eq PNone PNone = True"
| "py_eq (PBool a) (PBool b) = (a = b)"
| "py_eq (PBool a) (PInt i) = (i = (if a then 1 else 0))"
| "py_eq (PInt i) (PBool a) = (i = (if a then 1 else 0))"
| "py_eq (PInt i) (PInt j) = (i = j)"
| "py_eq (PStr s) (PStr t) = (s = t)"
| "py_eq (BasicBlockTarget t off) (BasicBlockTarget t' off') = (t = t' \<and> off = off')"
| "py_eq v w = False"

text \<open>\<open>type(v) == type(e)\<close>.\<close>

fun same_type :: "pyval \<Rightarrow> pyval \<Rightarrow> bool" where
  "same_type PNone PNone = True"
| "same_type (PBool a) (PBool b) = True"
| "same_type (PInt i) (PInt j) = True"
| "same_type (PStr s) (PStr t) = True"
| "same_type (BasicBlockTarget t off) (BasicBlockTarget t' off') = True"
| "same_type v w = False"

text \<open>\<open>v in l\<close> and \<open>l.index(v)\<close>, which raises \<open>ValueError\<close> when no entry equals \<open>v\<close>.\<close>

definition py_in :: "pyval \<Rightarrow> pyval list \<Rightarrow> bool" where
  "py_in v l = list_ex (\<lambda>e. py_eq e v) l"

fun index_from :: "nat \<Rightarrow> pyval list \<Rightarrow> pyval \<Rightarrow> error + nat" where
  "index_from i [] v = Inl ValueError"
| "index_from i (e # l) v = (if py_eq e v then Inr i else index_from (i + 1) l v)"

definition py_index :: "pyval list \<Rightarrow> pyval \<Rightarrow> error + nat" where
  "py_index l v = index_from 0 l v"

text \<open>
  \<open>_strict_index\<close>: the first entry that equals \<open>v\<close> and has its type; when there is
  none, \<open>l.index(v)\<close>.
\<close>

fun strict_from :: "nat \<Rightarrow> pyval list \<Rightarrow> pyval \<Rightarrow> nat option" where
  "strict_from i [] v = None"
| "strict_from i (e # l) v =
     (if py_eq v e \<and> same_type v e then Some i else strict_from (i + 1) l v)"

definition strict_index :: "pyval list \<Rightarrow> pyval \<Rightarrow> error + nat" where
  "strict_index l v = (case strict_from 0 l v of Some i \<Rightarrow> Inr i | None \<Rightarrow> py_index l v)"

subsection \<open>Instructions, the opcode tables and the code unit's metadata\<close>

record Instruction =
  opcode :: nat
  arg :: pyval

text \<open>
  The tables of the module \<open>dis\<close>, which the repository imports: they are a parameter
  of the model.
\<close>

record optable =
  HAVE_ARGUMENT :: nat
  EXTENDED_ARG :: nat
  hasname :: "nat list"
  haslocal :: "nat list"
  hasconst :: "nat list"
  hascompare :: "nat list"
  hasfree :: "nat list"
  hasjrel :: "nat list"
  hasjabs :: "nat list"
  cmp_op :: "pyval list"
  opname_of :: "nat \<Rightarrow> string"

record CodeInfo =
  co_argcount :: int
  co_posonlyargcount :: int
  co_kwonlyargcount :: int
  co_nlocals :: int
  co_stacksize :: int
  co_flags :: int
  co_consts :: "pyval list"
  co_names :: "pyval list"
  co_varnames :: "pyval list"
  co_filename :: string
  co_name :: string
  co_freevars :: "pyval list"
  co_cellvars :: "pyval list"

definition is_jump :: "optable \<Rightarrow> Instruction \<Rightarrow> bool" where
  "is_jump T i = (opcode i \<in> set (hasjrel T) \<or> opcode i \<in> set (hasjabs T))"

definition no_next :: "optable \<Rightarrow> Instruction \<Rightarrow> bool" where
  "no_next T i = (opname_of T (opcode i) \<in> {''RETURN_VALUE'', ''JUMP_ABSOLUTE'', ''JUMP_FORWARD''})"

definition get_free_index :: "CodeInfo \<Rightarrow> pyval \<Rightarrow> error + nat" where
  "get_free_index ci name =
     (if py_in name (co_cellvars ci) then py_index (co_cellvars ci) name
      else (case py_index (co_freevars ci) name of
              Inl e \<Rightarrow> Inl e
            | Inr i \<Rightarrow> Inr (length (co_cellvars ci) + i)))"

text \<open>
  \<open>make_sure\<close>: the table is chosen by name; the value is appended when \<open>value not in l\<close>,
  and the result is \<open>l.index(value)\<close>.
\<close>

datatype table = Consts | Names | Varnames | Freevars | Cellvars

definition get_table :: "table \<Rightarrow> CodeInfo \<Rightarrow> pyval list" where
  "get_table t ci =
     (case t of Consts \<Rightarrow> co_consts ci | Names \<Rightarrow> co_names ci | Varnames \<Rightarrow> co_varnames ci
      | Freevars \<Rightarrow> co_freevars ci | Cellvars \<Rightarrow> co_cellvars ci)"

definition set_table :: "table \<Rightarrow> pyval list \<Rightarrow> CodeInfo \<Rightarrow> CodeInfo" where
  "set_table t l ci =
     (case t of Consts \<Rightarrow> ci\<lparr>co_consts := l\<rparr> | Names \<Rightarrow> ci\<lparr>co_names := l\<rparr>
      | Varnames \<Rightarrow> ci\<lparr>co_varnames := l\<rparr> | Freevars \<Rightarrow> ci\<lparr>co_freevars := l\<rparr>
      | Cellvars \<Rightarrow> ci\<lparr>co_cellvars := l\<rparr>)"

definition make_sure :: "table \<Rightarrow> pyval \<Rightarrow> CodeInfo \<Rightarrow> (error + nat) \<times> CodeInfo" where
  "make_sure t v ci =
     (let l = get_table t ci;
          l' = (if \<not> py_in v l then l @ [v] else l)
      in (py_index l' v, set_table t l' ci))"

subsection \<open>Encoding one instruction\<close>

text \<open>
  The list \<open>vs\<close> of \<open>get_raw\<close> before it is reversed: the bytes of the operand, lowest
  first.  On Python's integers \<open>a & 0xFF\<close> is \<open>a mod 256\<close> and \<open>a >> 8\<close> is \<open>a div 256\<close>.
\<close>

function arg_bytes :: "int \<Rightarrow> int list" where
  "arg_bytes a = (if a > 255 then (a mod 256) # arg_bytes (a div 256) else [a])"
  by pat_completeness auto
termination
  by (relation "measure nat") auto

text \<open>A \<open>dis.Instruction\<close> as the assembler builds it: the opcode and \<open>arg\<close>.\<close>

type_synonym raw = "nat \<times> int option"

text \<open>
  The operand index \<open>arg_i\<close> of \<open>get_raw(code_info, o, j)\<close>, by the chain of tests of
  the source.  \<open>isinstance(x, int)\<close> holds for a \<open>bool\<close> too.  With \<open>j = None\<close> the
  arithmetic, or the comparison of the assertion, is a \<open>TypeError\<close>.  The parameter
  \<open>o\<close> of the source is \<open>own\<close> here.
\<close>

definition is_Label :: "pyval \<Rightarrow> bool" where
  "is_Label v = (case v of BasicBlockTarget t off \<Rightarrow> True | _ \<Rightarrow> False)"

definition operand_index ::
  "optable \<Rightarrow> Instruction \<Rightarrow> CodeInfo \<Rightarrow> nat \<Rightarrow> nat option \<Rightarrow> error + int" where
  "operand_index T self code_info own j =
     (if opcode self \<in> set (hasname T) then map_sum id int (py_index (co_names code_info) (arg self))
      else if opcode self \<in> set (haslocal T)
        then map_sum id int (py_index (co_varnames code_info) (arg self))
      else if opcode self \<in> set (hasconst T)
        then map_sum id int (strict_index (co_consts code_info) (arg self))
      else if opcode self \<in> set (hascompare T)
        then map_sum id int (py_index (cmp_op T) (arg self))
      else if opcode self \<in> set (hasfree T)
        then map_sum id int (get_free_index code_info (arg self))
      else if opcode self \<in> set (hasjrel T) \<and> is_Label (arg self)
        then (case j of None \<Rightarrow> Inl TypeError | Some t \<Rightarrow> Inr (int t - int own - 1))
      else if opcode self \<in> set (hasjabs T) \<and> is_Label (arg self)
        then (case j of None \<Rightarrow> Inl TypeError | Some t \<Rightarrow> Inr (int t))
      else (case arg self of
              PInt i \<Rightarrow> Inr i
            | PBool b \<Rightarrow> Inr (if b then 1 else 0)
            | _ \<Rightarrow> Inl AssertionError))"

definition get_raw ::
  "optable \<Rightarrow> Instruction \<Rightarrow> CodeInfo \<Rightarrow> nat \<Rightarrow> nat option \<Rightarrow> error + raw list" where
  "get_raw T self code_info own j =
     (if opcode self < HAVE_ARGUMENT T then Inr [(opcode self, None)]
      else (case operand_index T self code_info own j of
              Inl e \<Rightarrow> Inl e
            | Inr arg_i \<Rightarrow>
                if \<not> arg_i \<ge> 0 then Inl AssertionError
                else (let vs = rev (arg_bytes arg_i)
                      in Inr (map (\<lambda>v. (EXTENDED_ARG T, Some v)) (butlast vs)
                              @ [(opcode self, Some (last vs))]))))"

text \<open>\<open>_to_bytes\<close>: \<open>bytearray.append\<close> takes an integer in \<open>range(256)\<close> only.\<close>

fun to_bytes :: "raw list \<Rightarrow> error + nat list" where
  "to_bytes [] = Inr []"
| "to_bytes ((opc, a) # raw) =
     (let v = (case a of None \<Rightarrow> 0 | Some x \<Rightarrow> x) in
      if \<not> opc < 256 \<or> v < 0 \<or> \<not> v < 256 then Inl ValueError
      else (case to_bytes raw of Inl e \<Rightarrow> Inl e | Inr out \<Rightarrow> Inr (opc # nat v # out)))"


subsection \<open>Blocks\<close>

text \<open>
  A \<open>BasicBlock\<close>; its \<open>id\<close> is \<open>block_id\<close> here.  Every block of a graph refers to
  the one \<open>CodeInfo\<close> object of the graph, which the model keeps in the
  \<open>FunctionBlock\<close>.  \<open>blocks\<close> is a \<open>dict\<close>, in insertion order.
\<close>

record BasicBlock =
  block_id :: nat
  instructions :: "Instruction list"
  jump_instruction :: "Instruction option"
  next_target :: "pyval option"
  line :: "int option"

datatype Block =
    Basic BasicBlock
  | FunctionBlock CodeInfo nat nat "(nat \<times> Block) list"

subsection \<open>Linearising the blocks: \<open>as_basic_blocks\<close>\<close>

text \<open>
  A run is a Python list of blocks.  The method compares runs with \<open>is\<close>, so a run
  carries the identity of its list object: the number under which it was created.
  The state of the method is the two dictionaries \<open>runs_by_start\<close> and
  \<open>runs_by_target\<close> (in insertion order) and the number of list objects created.
\<close>

type_synonym run = "nat \<times> BasicBlock list"

type_synonym runs = "(nat \<times> run) list \<times> (nat \<times> run) list \<times> nat"

text \<open>The body of \<open>for bb in bbs\<close>, for the basic blocks of one child.\<close>

fun register :: "BasicBlock list \<Rightarrow> runs \<Rightarrow> error + runs" where
  "register [] st = Inr st"
| "register (bb # bbs) (runs_by_start, runs_by_target, n) =
     (if map_of runs_by_start (block_id bb) \<noteq> None then Inl AssertionError
      else (let r = (n, [bb]);
                runs_by_start' = AList.update (block_id bb) r runs_by_start
            in case next_target bb of
                 None \<Rightarrow> register bbs (runs_by_start', runs_by_target, n + 1)
               | Some (BasicBlockTarget t off) \<Rightarrow>
                   if off \<noteq> 0 then Inl AssertionError
                   else if map_of runs_by_target t \<noteq> None then Inl AssertionError
                   else register bbs (runs_by_start', AList.update t r runs_by_target, n + 1)
               | Some other \<Rightarrow> Inl AssertionError))"

text \<open>
  The loop \<open>while runs_by_target\<close>.  \<open>popitem\<close> takes the item inserted last;
  \<open>pop\<close> of a missing key is a \<open>KeyError\<close>; \<open>start_run + end_run\<close> is a new list.
\<close>

function splice :: "runs \<Rightarrow> error + runs" where
  "splice (runs_by_start, runs_by_target, n) =
     (if runs_by_target = [] then Inr (runs_by_start, runs_by_target, n)
      else (let (target_id, start_run) = last runs_by_target;
                runs_by_target1 = butlast runs_by_target
            in if map_of runs_by_start target_id = None then Inl AssertionError
               else if snd start_run = [] then Inl IndexError
               else if map_of runs_by_start (block_id (hd (snd start_run))) = None then Inl KeyError
               else (let runs_by_start1 = AList.delete (block_id (hd (snd start_run))) runs_by_start
                     in case map_of runs_by_start1 target_id of
                          None \<Rightarrow> Inl KeyError
                        | Some end_run \<Rightarrow>
                            (let runs_by_start2 = AList.delete target_id runs_by_start1;
                                 run = (n, snd start_run @ snd end_run);
                                 runs_by_start3 =
                                   AList.update (block_id (hd (snd run))) run runs_by_start2
                             in case next_target (last (snd run)) of
                                  None \<Rightarrow> splice (runs_by_start3, runs_by_target1, n + 1)
                                | Some (BasicBlockTarget t off) \<Rightarrow>
                                    (case map_of runs_by_target1 t of
                                       None \<Rightarrow> Inl KeyError
                                     | Some r \<Rightarrow>
                                         if fst r \<noteq> fst end_run then Inl AssertionError
                                         else splice (runs_by_start3,
                                                AList.update t run runs_by_target1, n + 1))
                                | Some other \<Rightarrow> Inl AssertionError))))"
  by pat_completeness auto
termination
proof (relation "measure (\<lambda>(runs_by_start, runs_by_target, n). length runs_by_target)")
  show "wf (measure (\<lambda>(runs_by_start, runs_by_target, n). length runs_by_target))" by simp
next
  fix runs_by_start :: "(nat \<times> run) list" and runs_by_target :: "(nat \<times> run) list" and n :: nat
    and x runs_by_target1 runs_by_start3
  assume "runs_by_target \<noteq> []" "runs_by_target1 = butlast runs_by_target"
  then show "((runs_by_start3, runs_by_target1, n + 1), (runs_by_start, runs_by_target, n))
      \<in> measure (\<lambda>(runs_by_start, runs_by_target, n). length runs_by_target)"
    by simp
next
  fix runs_by_start :: "(nat \<times> run) list" and runs_by_target :: "(nat \<times> run) list" and n :: nat
    and runs_by_target1 runs_by_start3 t run r
  assume "runs_by_target \<noteq> []" "runs_by_target1 = butlast runs_by_target"
    "map_of runs_by_target1 t = Some r"
  then have "t \<in> set (map fst runs_by_target1)" "length runs_by_target1 < length runs_by_target"
    by (force dest: map_of_SomeD simp: image_iff)+
  then have "length (map fst (AList.update t run runs_by_target1)) < length runs_by_target"
    by (simp only: update_keys if_True length_map)
  then have "length (AList.update t run runs_by_target1) < length runs_by_target"
    by simp
  then show "((runs_by_start3, AList.update t run runs_by_target1, n + 1),
        (runs_by_start, runs_by_target, n))
      \<in> measure (\<lambda>(runs_by_start, runs_by_target, n). length runs_by_target)"
    by simp
qed

text \<open>
  The end of the method: the run of the entry block, then
  \<open>while runs_by_start: result.extend(runs_by_start.pop(min(runs_by_start)))\<close>.
\<close>

function extend_by_min :: "(nat \<times> run) list \<Rightarrow> BasicBlock list \<Rightarrow> BasicBlock list" where
  "extend_by_min runs_by_start result =
     (if runs_by_start = [] then result
      else (let k = Min (set (map fst runs_by_start))
            in extend_by_min (AList.delete k runs_by_start)
                 (result @ snd (the (map_of runs_by_start k)))))"
  by pat_completeness auto
termination
proof (relation "measure (\<lambda>(runs_by_start, result). length runs_by_start)")
  show "wf (measure (\<lambda>(runs_by_start, result). length runs_by_start))" by simp
next
  fix runs_by_start :: "(nat \<times> run) list" and result :: "BasicBlock list" and k
  assume a: "runs_by_start \<noteq> []" "k = Min (set (map fst runs_by_start))"
  then have "k \<in> set (map fst runs_by_start)" using Min_in[of "set (map fst runs_by_start)"] by simp
  then have "length (removeAll k (map fst runs_by_start)) < length (map fst runs_by_start)"
    by (rule length_removeAll_less)
  then have "length (AList.delete k runs_by_start) < length runs_by_start"
    by (simp add: delete_keys[symmetric])
  then show "((AList.delete k runs_by_start, result @ snd (the (map_of runs_by_start k))),
        (runs_by_start, result)) \<in> measure (\<lambda>(runs_by_start, result). length runs_by_start)"
    by simp
qed

definition finish :: "nat \<Rightarrow> runs \<Rightarrow> error + BasicBlock list" where
  "finish entry st =
     (case st of (runs_by_start, runs_by_target, n) \<Rightarrow>
        (case map_of runs_by_start entry of
           None \<Rightarrow> Inl KeyError
         | Some result \<Rightarrow> Inr (extend_by_min (AList.delete entry runs_by_start) (snd result))))"

text \<open>
  \<open>as_basic_blocks\<close>.  The first loop takes the children in the order of the
  dictionary: it linearises a child, then registers its basic blocks.
\<close>

fun as_basic_blocks :: "Block \<Rightarrow> error + BasicBlock list"
  and register_children :: "(nat \<times> Block) list \<Rightarrow> runs \<Rightarrow> error + runs" where
  "as_basic_blocks (Basic b) = Inr [b]"
| "as_basic_blocks (FunctionBlock code_info i entry blocks) =
     (case register_children blocks ([], [], 0) of
        Inl e \<Rightarrow> Inl e
      | Inr st \<Rightarrow> (case splice st of Inl e \<Rightarrow> Inl e | Inr st' \<Rightarrow> finish entry st'))"
| "register_children [] st = Inr st"
| "register_children (kb # rest) st =
     (case as_basic_blocks (snd kb) of
        Inl e \<Rightarrow> Inl e
      | Inr bbs \<Rightarrow>
          (case register bbs st of Inl e \<Rightarrow> Inl e | Inr st' \<Rightarrow> register_children rest st'))"


subsection \<open>The instruction list of a graph: \<open>get_instructions\<close>\<close>

text \<open>
  The first loop of \<open>get_instructions\<close>, over the linearised blocks.  Its state is
  \<open>block_starts\<close>, \<open>line_starts\<close>, \<open>ins\<close>, \<open>last_line\<close> and \<open>to_fix\<close>.
\<close>

type_synonym gi_state =
  "(nat \<times> nat) list \<times> (nat \<times> int option) list \<times> Instruction list \<times> int option \<times> nat list"

fun gi_blocks :: "BasicBlock list \<Rightarrow> gi_state \<Rightarrow> error + gi_state" where
  "gi_blocks [] st = Inr st"
| "gi_blocks (b # bs) (block_starts, line_starts, ins, last_line, to_fix) =
     (let block_starts' = AList.update (block_id b) (length ins) block_starts;
          line_starts' = (if line b \<noteq> last_line then AList.update (length ins) (line b) line_starts
                          else line_starts);
          last_line' = (if line b \<noteq> last_line then line b else last_line);
          ins' = ins @ instructions b
      in case jump_instruction b of
           None \<Rightarrow> gi_blocks bs (block_starts', line_starts', ins', last_line', to_fix)
         | Some jmp \<Rightarrow>
             if \<not> is_Label (arg jmp) then Inl AssertionError
             else gi_blocks bs (block_starts', line_starts', ins' @ [jmp], last_line',
                    to_fix @ [length ins']))"

text \<open>The second loop: \<open>jumps[i] = block_starts[l.target_id] + l.offset\<close>.\<close>

fun gi_fix :: "(nat \<times> nat) list \<Rightarrow> Instruction list \<Rightarrow> nat list \<Rightarrow> (nat \<times> nat) list
    \<Rightarrow> error + (nat \<times> nat) list" where
  "gi_fix block_starts ins [] jumps = Inr jumps"
| "gi_fix block_starts ins (i # to_fix) jumps =
     (case arg (ins ! i) of
        BasicBlockTarget target_id off \<Rightarrow>
          (case map_of block_starts target_id of
             None \<Rightarrow> Inl KeyError
           | Some s \<Rightarrow> gi_fix block_starts ins to_fix (AList.update i (s + off) jumps))
      | _ \<Rightarrow> Inl AssertionError)"

definition get_instructions ::
  "Block \<Rightarrow> error + (nat \<times> nat) list \<times> (nat \<times> int option) list \<times> Instruction list" where
  "get_instructions self =
     (case as_basic_blocks self of
        Inl e \<Rightarrow> Inl e
      | Inr bbs \<Rightarrow>
          (case gi_blocks bbs ([], [], [], None, []) of
             Inl e \<Rightarrow> Inl e
           | Inr (block_starts, line_starts, ins, last_line, to_fix) \<Rightarrow>
               (case gi_fix block_starts ins to_fix [] of
                  Inl e \<Rightarrow> Inl e
                | Inr jumps \<Rightarrow> Inr (jumps, line_starts, ins))))"

subsection \<open>The fixed-point layout loop of \<open>assemble\<close>\<close>

text \<open>\<open>actual_targets = {o: o for o in jumps.values()}\<close>.\<close>

definition init_targets :: "(nat \<times> nat) list \<Rightarrow> (nat \<times> nat) list" where
  "init_targets jumps = foldl (\<lambda>d t. AList.update t t d) [] (map snd jumps)"

text \<open>
  One pass: the loop \<open>for j, i in enumerate(ins)\<close>, from index \<open>j\<close>, on the state
  \<open>actual_targets\<close>, \<open>raw_ins\<close>, \<open>line_offsets\<close>.  \<open>actual_targets\<close> is updated in place,
  so a jump back reads the offset of this pass and a jump forward that of the pass
  before.
\<close>

type_synonym pass_state = "(nat \<times> nat) list \<times> raw list \<times> (nat \<times> int option) list"

fun assemble_pass ::
  "optable \<Rightarrow> CodeInfo \<Rightarrow> (nat \<times> nat) list \<Rightarrow> (nat \<times> int option) list \<Rightarrow> nat
    \<Rightarrow> Instruction list \<Rightarrow> pass_state \<Rightarrow> error + pass_state" where
  "assemble_pass T code_info jumps line_starts j [] st = Inr st"
| "assemble_pass T code_info jumps line_starts j (i # ins) (actual_targets, raw_ins, line_offsets) =
     (let actual_targets' =
            (if map_of actual_targets j \<noteq> None
             then AList.update j (length raw_ins) actual_targets else actual_targets);
          line_offsets' =
            (case map_of line_starts j of
               Some l \<Rightarrow> AList.update (length raw_ins * 2) l line_offsets
             | None \<Rightarrow> line_offsets);
          t = (case map_of jumps j of None \<Rightarrow> None | Some t0 \<Rightarrow> map_of actual_targets' t0)
      in case get_raw T i code_info j t of
           Inl e \<Rightarrow> Inl e
         | Inr rs \<Rightarrow>
             assemble_pass T code_info jumps line_starts (j + 1) ins
               (actual_targets', raw_ins @ rs, line_offsets'))"

text \<open>
  The loop \<open>while old_hash != hash(frozenset(actual_targets.items()))\<close>.  Python's
  \<open>hash\<close> is a parameter; \<open>old_hash\<close> starts as \<open>None\<close>, and so do \<open>raw_ins\<close> and
  \<open>line_offsets\<close>, which are set together and are one optional pair here.  The loop
  has no bound in the source: the model returns \<open>None\<close> if it runs forever.
\<close>

partial_function (option) assemble_loop ::
  "((nat \<times> nat) set \<Rightarrow> 'h) \<Rightarrow> optable \<Rightarrow> CodeInfo \<Rightarrow> (nat \<times> nat) list
    \<Rightarrow> (nat \<times> int option) list \<Rightarrow> Instruction list \<Rightarrow> 'h option \<Rightarrow> (nat \<times> nat) list
    \<Rightarrow> (raw list \<times> (nat \<times> int option) list) option
    \<Rightarrow> (error + (raw list \<times> (nat \<times> int option) list) option) option" where
  "assemble_loop hash T code_info jumps line_starts ins old_hash actual_targets raw_and_lines =
     (if old_hash \<noteq> Some (hash (set actual_targets))
      then (case assemble_pass T code_info jumps line_starts 0 ins (actual_targets, [], []) of
              Inl e \<Rightarrow> Some (Inl e)
            | Inr (actual_targets', raw_ins', line_offsets') \<Rightarrow>
                assemble_loop hash T code_info jumps line_starts ins
                  (Some (hash (set actual_targets))) actual_targets'
                  (Some (raw_ins', line_offsets')))
      else Some (Inr raw_and_lines))"

declare assemble_loop.simps [code]

subsection \<open>The position table: \<open>_to_linetab\<close>\<close>

text \<open>\<open>out.extend(...)\<close> on a \<open>bytearray\<close>: every value must be in \<open>range(256)\<close>.\<close>

definition extend_bytes :: "nat list \<Rightarrow> int list \<Rightarrow> error + nat list" where
  "extend_bytes out vs =
     (if list_ex (\<lambda>v. v < 0 \<or> \<not> v < 256) vs then Inl ValueError else Inr (out @ map nat vs))"

function lt_lines :: "int \<Rightarrow> int \<Rightarrow> nat list \<Rightarrow> error + int \<times> nat list" where
  "lt_lines dl ddl out =
     (if dl > 127
      then (case extend_bytes out [0, 127 * ddl] of
              Inl e \<Rightarrow> Inl e
            | Inr out' \<Rightarrow> lt_lines (dl - 127) ddl out')
      else Inr (dl, out))"
  by pat_completeness auto
termination
  by (relation "measure (\<lambda>(dl, ddl, out). nat dl)") auto

function lt_offsets :: "int \<Rightarrow> nat list \<Rightarrow> error + nat list" where
  "lt_offsets d out =
     (if d > 0
      then (case extend_bytes out [min 255 d, 0] of
              Inl e \<Rightarrow> Inl e
            | Inr out' \<Rightarrow> lt_offsets (d - 255) out')
      else Inr out)"
  by pat_completeness auto
termination
  by (relation "measure (\<lambda>(d, out). nat d)") auto

text \<open>
  The loop over \<open>sorted(offsets.items()) + [(end, None)]\<close>, on the state \<open>out\<close>,
  \<open>lo\<close>, \<open>startline\<close>, \<open>ll\<close>, \<open>lll\<close>.  Arithmetic on \<open>None\<close> is a \<open>TypeError\<close>.
\<close>

type_synonym lt_state = "nat list \<times> int \<times> int option \<times> int option \<times> int option"

fun lt_items :: "(nat \<times> int option) list \<Rightarrow> lt_state \<Rightarrow> error + lt_state" where
  "lt_items [] st = Inr st"
| "lt_items ((off, l) # items) (out, lo, startline, ll, lll) =
     (if startline = None
      then (case l of
              None \<Rightarrow> Inl TypeError
            | Some l0 \<Rightarrow> lt_items items (out, lo, Some (l0 - 1), Some l0, Some (l0 - 1)))
      else (case (ll, lll) of
              (Some ll0, Some lll0) \<Rightarrow>
                (let dl = ll0 - lll0;
                     d = int off - lo;
                     ddl = (if dl < 0 then - 1 else 1)
                 in case lt_lines (abs dl) ddl out of
                      Inl e \<Rightarrow> Inl e
                    | Inr (dl', out1) \<Rightarrow>
                        (case extend_bytes out1 [min 255 d, dl' * ddl mod 256] of
                           Inl e \<Rightarrow> Inl e
                         | Inr out2 \<Rightarrow>
                             (case lt_offsets (d - 255) out2 of
                                Inl e \<Rightarrow> Inl e
                              | Inr out3 \<Rightarrow> lt_items items (out3, int off, startline, l, ll))))
            | _ \<Rightarrow> Inl TypeError))"

definition to_linetab :: "(nat \<times> int option) list \<Rightarrow> nat \<Rightarrow> error + int option \<times> nat list" where
  "to_linetab offsets end_off =
     (case lt_items (sort_key fst offsets @ [(end_off, None)]) ([], 0, None, None, None) of
        Inl e \<Rightarrow> Inl e
      | Inr (out, lo, startline, ll, lll) \<Rightarrow> Inr (startline, out))"

subsection \<open>\<open>assemble\<close>\<close>

text \<open>The code object \<open>build\<close> makes: the metadata and the three fields \<open>assemble\<close> passes.\<close>

record Code = CodeInfo +
  co_code :: "nat list"
  co_firstlineno :: "int option"
  co_lnotab :: "nat list"

definition build :: "CodeInfo \<Rightarrow> nat list \<Rightarrow> int option \<Rightarrow> nat list \<Rightarrow> Code" where
  "build ci code firstlineno lnotab =
     CodeInfo.extend ci (Code.fields code firstlineno lnotab)"

text \<open>\<open>assemble\<close> is a method of \<open>FunctionBlock\<close>; a \<open>BasicBlock\<close> has no such attribute.\<close>

definition assemble ::
  "((nat \<times> nat) set \<Rightarrow> 'h) \<Rightarrow> optable \<Rightarrow> Block \<Rightarrow> (error + Code) option" where
  "assemble hash T self =
     (case self of
        Basic b \<Rightarrow> Some (Inl AttributeError)
      | FunctionBlock code_info i entry blocks \<Rightarrow>
          (case get_instructions self of
             Inl e \<Rightarrow> Some (Inl e)
           | Inr (jumps, line_starts, ins) \<Rightarrow>
               (case assemble_loop hash T code_info jumps line_starts ins None
                       (init_targets jumps) None of
                  None \<Rightarrow> None
                | Some (Inl e) \<Rightarrow> Some (Inl e)
                | Some (Inr None) \<Rightarrow> Some (Inl AssertionError)
                | Some (Inr (Some (raw_ins, line_offsets))) \<Rightarrow>
                    (case to_linetab line_offsets (length raw_ins * 2) of
                       Inl e \<Rightarrow> Some (Inl e)
                     | Inr (startline, linetab) \<Rightarrow>
                         (case to_bytes raw_ins of
                            Inl e \<Rightarrow> Some (Inl e)
                          | Inr code \<Rightarrow> Some (Inr (build code_info code startline linetab)))))))"


subsection \<open>\<open>disassemble\<close>\<close>

text \<open>
  A tuple of \<open>dis.get_instructions(code)\<close>, the decoder of the standard library: the
  fields \<open>disassemble\<close> reads, and \<open>arg\<close>.  The decoder yields one tuple for every
  two-byte unit of the code, an \<open>EXTENDED_ARG\<close> prefix included, and gives the
  instruction after a prefix the combined argument.
\<close>

record dis_Instruction =
  d_opcode :: nat
  d_arg :: "int option"
  d_argval :: pyval
  d_offset :: nat
  d_starts_line :: "int option"
  d_is_jump_target :: bool

text \<open>
  The byte stream the decoder read the tuples from: for each tuple its opcode and
  the low byte of its argument (\<open>0\<close> when it has none).
\<close>

definition code_bytes :: "dis_Instruction list \<Rightarrow> nat list" where
  "code_bytes raws =
     concat (map (\<lambda>r. [d_opcode r, (case d_arg r of None \<Rightarrow> 0 | Some a \<Rightarrow> nat (a mod 256))]) raws)"

definition from_dis :: "dis_Instruction \<Rightarrow> Instruction" where
  "from_dis raw = \<lparr>opcode = d_opcode raw, arg = d_argval raw\<rparr>"

text \<open>
  The state of the loop of \<open>disassemble\<close>.  \<open>current\<close> and \<open>last\<close> refer to block
  objects that are in \<open>blocks\<close> already: they are the ids of those blocks.  \<open>to_fix\<close>
  holds the jump instruction objects, each the \<open>jump_instruction\<close> of one block: an
  entry is the id of that block with the instruction.
\<close>

record dstate =
  ds_block_id :: nat
  ds_blocks :: "(nat \<times> BasicBlock) list"
  ds_labels :: "(nat \<times> pyval) list"
  ds_current :: "nat option"
  ds_last :: "nat option"
  ds_line :: "int option"
  ds_current_start :: nat
  ds_to_fix :: "(nat \<times> Instruction) list"

text \<open>A change of the block object with the id \<open>b\<close>.\<close>

definition upd_block :: "nat \<Rightarrow> (BasicBlock \<Rightarrow> BasicBlock) \<Rightarrow> dstate \<Rightarrow> dstate" where
  "upd_block b f s = s\<lparr>ds_blocks := map (\<lambda>(k, bb). if k = b then (k, f bb) else (k, bb)) (ds_blocks s)\<rparr>"

text \<open>\<open>if raw.starts_line is not None: ...\<close>\<close>

definition dis_line :: "dis_Instruction \<Rightarrow> dstate \<Rightarrow> error + dstate" where
  "dis_line raw s =
     (case d_starts_line raw of
        None \<Rightarrow> Inr s
      | Some l \<Rightarrow>
          (let s1 = s\<lparr>ds_line := Some l\<rparr> in
           if ds_current s1 \<noteq> None
           then (if ds_last s1 \<noteq> None then Inl AssertionError
                 else Inr (s1\<lparr>ds_last := ds_current s1, ds_current := None\<rparr>))
           else Inr s1))"

text \<open>
  \<open>if current is None: ...\<close>; the result is the id of \<open>current\<close> and the state.
  \<open>last.next_target\<close> is read from the block object \<open>last\<close> refers to.
\<close>

definition dis_open :: "dis_Instruction \<Rightarrow> dstate \<Rightarrow> error + nat \<times> dstate" where
  "dis_open raw s =
     (case ds_current s of
        Some cur \<Rightarrow> Inr (cur, s)
      | None \<Rightarrow>
          (let b = ds_block_id s;
               new = \<lparr>block_id = b, instructions = [], jump_instruction = None,
                        next_target = None, line = ds_line s\<rparr>
           in case (case ds_last s of
                      None \<Rightarrow> Inr s
                    | Some l \<Rightarrow>
                        if Option.bind (map_of (ds_blocks s) l) next_target \<noteq> None
                        then Inl AssertionError
                        else Inr ((upd_block l (\<lambda>x. x\<lparr>next_target := Some (BasicBlockTarget b 0)\<rparr>) s)
                                    \<lparr>ds_last := None\<rparr>)) of
                Inl e \<Rightarrow> Inl e
              | Inr s1 \<Rightarrow>
                  Inr (b, s1\<lparr>ds_current := Some b,
                             ds_blocks := AList.update b new (ds_blocks s1),
                             ds_current_start := d_offset raw,
                             ds_block_id := b + 1\<rparr>)))"

text \<open>The rest of the loop body; \<open>cur\<close> is the id of \<open>current\<close>.\<close>

definition dis_put :: "optable \<Rightarrow> dis_Instruction \<Rightarrow> nat \<Rightarrow> dstate \<Rightarrow> dstate" where
  "dis_put T raw cur s =
     (let s1 = (if d_is_jump_target raw
                then s\<lparr>ds_labels := AList.update (d_offset raw)
                          (BasicBlockTarget cur ((d_offset raw - ds_current_start s) div 2))
                          (ds_labels s)\<rparr>
                else s);
          ins = from_dis raw;
          s2 = (if \<not> is_jump T ins
                then upd_block cur (\<lambda>x. x\<lparr>instructions := instructions x @ [ins]\<rparr>) s1
                else (upd_block cur (\<lambda>x. x\<lparr>jump_instruction := Some ins\<rparr>) s1)
                       \<lparr>ds_to_fix := ds_to_fix s1 @ [(cur, ins)], ds_last := Some cur,
                         ds_current := None\<rparr>)
      in if no_next T ins then s2\<lparr>ds_last := None, ds_current := None\<rparr> else s2)"

fun dis_loop :: "optable \<Rightarrow> dis_Instruction list \<Rightarrow> dstate \<Rightarrow> error + dstate" where
  "dis_loop T [] s = Inr s"
| "dis_loop T (raw # raws) s =
     (case dis_line raw s of
        Inl e \<Rightarrow> Inl e
      | Inr s1 \<Rightarrow>
          (case dis_open raw s1 of
             Inl e \<Rightarrow> Inl e
           | Inr (cur, s2) \<Rightarrow> dis_loop T raws (dis_put T raw cur s2)))"

text \<open>
  \<open>for ins in to_fix: ins.arg = labels[ins.arg]\<close>: the operand of a jump is the
  offset the decoder resolved; an offset without a label is a \<open>KeyError\<close>.
\<close>

definition label_of :: "(nat \<times> pyval) list \<Rightarrow> pyval \<Rightarrow> pyval option" where
  "label_of labels a =
     (case a of
        PInt i \<Rightarrow> (if i < 0 then None else map_of labels (nat i))
      | PBool x \<Rightarrow> map_of labels (if x then 1 else 0)
      | _ \<Rightarrow> None)"

fun dis_fix :: "(nat \<times> Instruction) list \<Rightarrow> dstate \<Rightarrow> error + dstate" where
  "dis_fix [] s = Inr s"
| "dis_fix ((b, ins) # to_fix) s =
     (case label_of (ds_labels s) (arg ins) of
        None \<Rightarrow> Inl KeyError
      | Some l \<Rightarrow>
          dis_fix to_fix (upd_block b (\<lambda>x. x\<lparr>jump_instruction := Some (ins\<lparr>arg := l\<rparr>)\<rparr>) s))"

text \<open>
  \<open>disassemble\<close>, from the metadata of the code object and the tuples the decoder
  gives for it: the graph is \<open>FunctionBlock(code_info, 0, 1, blocks)\<close>.
\<close>

definition disassemble :: "optable \<Rightarrow> CodeInfo \<Rightarrow> dis_Instruction list \<Rightarrow> error + Block" where
  "disassemble T code_info raws =
     (case dis_loop T raws \<lparr>ds_block_id = 1, ds_blocks = [], ds_labels = [], ds_current = None,
                             ds_last = None, ds_line = None, ds_current_start = 0, ds_to_fix = []\<rparr> of
        Inl e \<Rightarrow> Inl e
      | Inr s \<Rightarrow>
          (case dis_fix (ds_to_fix s) s of
             Inl e \<Rightarrow> Inl e
           | Inr s' \<Rightarrow> Inr (FunctionBlock code_info 0 1 (map (\<lambda>(k, b). (k, Basic b)) (ds_blocks s')))))"

text \<open>Disassembling and assembling again, as \<open>nop\<close> does.\<close>

definition round_trip ::
  "((nat \<times> nat) set \<Rightarrow> 'h) \<Rightarrow> optable \<Rightarrow> CodeInfo \<Rightarrow> dis_Instruction list \<Rightarrow> (error + Code) option" where
  "round_trip hash T code_info raws =
     (case disassemble T code_info raws of
        Inl e \<Rightarrow> Some (Inl e)
      | Inr b \<Rightarrow> assemble hash T b)"

text \<open>The tables of the module \<open>dis\<close> of CPython 3.10, for the examples.\<close>

definition dis_3_10 :: optable where
  "dis_3_10 = \<lparr>HAVE_ARGUMENT = 90, EXTENDED_ARG = 144,
     hasname = [90, 91, 95, 96, 97, 98, 101, 106, 108, 109, 116, 160],
     haslocal = [124, 125, 126],
     hasconst = [100],
     hascompare = [107],
     hasfree = [135, 136, 137, 138, 148],
     hasjrel = [93, 110, 122, 143, 154],
     hasjabs = [111, 112, 113, 114, 115, 121],
     cmp_op = [PStr ''<'', PStr ''<='', PStr ''=='', PStr ''!='', PStr ''>'', PStr ''>=''],
     opname_of = (\<lambda>n. if n = 83 then ''RETURN_VALUE'' else if n = 113 then ''JUMP_ABSOLUTE''
                    else if n = 110 then ''JUMP_FORWARD'' else ''<other>'')\<rparr>"


subsection \<open>An example code unit\<close>

text \<open>
  The end of a function that builds a tuple of 300 elements and returns it, as the
  decoder gives it: the operand 300 takes an \<open>EXTENDED_ARG\<close> prefix.
\<close>

definition example_info :: CodeInfo where "example_info = \<lparr>co_argcount = 0, co_posonlyargcount = 0, co_kwonlyargcount = 0, co_nlocals = 0, co_stacksize = 300, co_flags = 67, co_consts = [PNone], co_names = [], co_varnames = [], co_filename = ''f.py'', co_name = ''f'', co_freevars = [], co_cellvars = []\<rparr>"
definition wide_operand :: "dis_Instruction list" where "wide_operand = [
  \<lparr>d_opcode = 144, d_arg = Some 1, d_argval = PInt 1, d_offset = 0, d_starts_line = Some 1, d_is_jump_target = False\<rparr>,
  \<lparr>d_opcode = 102, d_arg = Some 300, d_argval = PInt 300, d_offset = 2, d_starts_line = None, d_is_jump_target = False\<rparr>,
  \<lparr>d_opcode = 83, d_arg = None, d_argval = PNone, d_offset = 4, d_starts_line = None, d_is_jump_target = False\<rparr>]"


section \<open>Notions used to state and prove the properties\<close>

subsection \<open>Scopes held by a suspended generator\<close>

text \<open>
  \<open>held g\<close> lists the keys of the scopes that the generator \<open>g\<close> has entered and not
  yet left, oldest first: its own keys and, between them, those of the generators on
  its stacks.  \<open>wf_gen g\<close> says that the stacks of \<open>g\<close> have the shape they have at the
  head of the loops of \<open>Concatenation.match\<close> and \<open>Repeat.match\<close>.
\<close>

fun interleave :: "nat list \<Rightarrow> nat list list \<Rightarrow> nat list" where
  "interleave (k # ks) (h # hs) = k # h @ interleave ks hs"
| "interleave ks hs = []"

fun held :: "('a, 'v) gen \<Rightarrow> nat list" where
  "held (AltY rest start k sub) = k # held sub"
| "held (LookY start k sub) = k # held sub"
| "held (AnyY cap n k rest) = [k]"
| "held (SEY effect target cap i stack k) = [k]"
| "held (CatLoop ps ks its rs) = interleave ks (map held its)"
| "held (CatY ps ks its rs) = interleave ks (map held its)"
| "held (RepLoop base mn mx stp ks its rs) = interleave ks (map held its)"
| "held (RepY base mn mx stp ks its rs) = interleave ks (map held its)"
| "held g = []"

fun wf_gen :: "('a, 'v) gen \<Rightarrow> bool" where
  "wf_gen (AltY rest start k sub) = wf_gen sub"
| "wf_gen (LookY start k sub) = wf_gen sub"
| "wf_gen (CatLoop ps ks its rs) =
     (length ks = length its \<and> (length rs = length its \<or> Suc (length rs) = length its)
      \<and> list_all wf_gen its)"
| "wf_gen (CatY ps ks its rs) =
     (length ks = length its \<and> length rs = length its \<and> list_all wf_gen its)"
| "wf_gen (RepLoop base mn mx stp ks its rs) =
     (length ks = length its \<and> (length rs = length its \<or> Suc (length rs) = length its)
      \<and> list_all wf_gen its)"
| "wf_gen (RepY base mn mx stp ks its rs) =
     (length ks = length its \<and> length rs = length its \<and> list_all wf_gen its)"
| "wf_gen g = True"

text \<open>
  \<open>balanced h c base ms\<close>: on top of the keys \<open>base\<close> the store \<open>c\<close> holds exactly the
  keys \<open>h\<close>, with one map for each of them above one more map, under which the maps
  \<open>ms\<close> lie untouched.
\<close>

definition balanced :: "nat list \<Rightarrow> ('a, 'v) Captures \<Rightarrow> nat list \<Rightarrow> ('a, 'v) dict list \<Rightarrow> bool" where
  "balanced h c base ms =
     (keys c = base @ h \<and> length (internal c) = Suc (length h) + length ms
      \<and> drop (Suc (length h)) (internal c) = ms)"

text \<open>What a \<open>next\<close> must leave behind for the store to stay balanced.\<close>

definition post_ok :: "('a, 'v) step option \<Rightarrow> nat list \<Rightarrow> ('a, 'v) dict list \<Rightarrow> bool" where
  "post_ok r base ms =
     (case r of
        Some (Yield v g' c') \<Rightarrow> wf_gen g' \<and> balanced (held g') c' base ms
      | Some (Stop c') \<Rightarrow> balanced [] c' base ms
      | _ \<Rightarrow> True)"

definition next_inv :: "nat \<Rightarrow> 'a seq \<Rightarrow> ('a, 'v) gen itself \<Rightarrow> bool" where
  "next_inv f s T = (\<forall>(g :: ('a, 'v) gen) c base ms. wf_gen g \<longrightarrow> balanced (held g) c base ms \<longrightarrow> post_ok (next f s g c) base ms)"


text \<open>
  The states of an \<open>Alternation\<close> generator started on the store \<open>c0\<close>: between two
  branches the store has the maps and keys of \<open>c0\<close>; inside a branch its generator is
  balanced on top of the scope \<open>k\<close> entered for it, with the maps of \<open>c0\<close> below.
\<close>

definition alt_inv :: "('a, 'v) Captures \<Rightarrow> ('a, 'v) gen \<Rightarrow> ('a, 'v) Captures \<Rightarrow> bool" where
  "alt_inv c0 g c =
     (case g of
        AltLoop rest st \<Rightarrow> internal c = internal c0 \<and> keys c = keys c0
      | AltY rest st k sub \<Rightarrow> wf_gen sub \<and> balanced (held sub) c (keys c0 @ [k]) (internal c0)
      | _ \<Rightarrow> False)"

text \<open>The values a pattern yields when its generator is pulled until it is exhausted.\<close>

definition emissions ::
  "nat \<Rightarrow> 'a seq \<Rightarrow> ('a, 'v) pattern \<Rightarrow> pos \<Rightarrow> ('a, 'v) Captures \<Rightarrow> pos list option" where
  "emissions fuel stream p start c =
     (case drain fuel stream (Fresh p start) c of
        Some (Inr (rs, c1)) \<Rightarrow> Some (map fst rs)
      | _ \<Rightarrow> None)"

section \<open>Properties of the pattern engine\<close>

subsection \<open>Every generator keeps the capture store balanced\<close>

lemma interleave_snoc:
  "length ks = length hs \<Longrightarrow> interleave (ks @ [k]) (hs @ [h]) = interleave ks hs @ k # h"
  by (induction ks hs rule: interleave.induct) auto

lemma bal_setitem [simp]: "balanced h c base ms \<Longrightarrow> balanced h (setitem n v c) base ms"
  by (auto simp: balanced_def setitem_def split: option.splits list.splits)

lemma bal_maybe [simp]: "balanced h c base ms \<Longrightarrow> balanced h (maybe cap v c) base ms"
  by (auto simp: maybe_def split: option.splits)

lemma bal_extend [simp]: "balanced h c base ms \<Longrightarrow> balanced h (Captures_extend r c) base ms"
  unfolding Captures_extend_def by (induction r arbitrary: c) (auto)

lemma bal_enter: "balanced h c base ms \<Longrightarrow> enter c = (k, c1) \<Longrightarrow> balanced (h @ [k]) c1 base ms"
  by (auto simp: balanced_def enter_def)

lemma bal_exit: "balanced (h @ [k]) c base ms \<Longrightarrow> \<exists>c1. exit k c = Inr c1 \<and> balanced h c1 base ms"
  by (cases "internal c"; cases "tl (internal c)")
     (auto simp: balanced_def exit_def parents_def butlast_append drop_Suc)

lemma leaf_posts:
  "balanced [] c base ms \<Longrightarrow> post_ok (Some (DirectMatch_match v cap s st c)) base ms"
  "balanced [] c base ms \<Longrightarrow> post_ok (Some (AnyOfMatch_match os cap s st c)) base ms"
  "balanced [] c base ms \<Longrightarrow> post_ok (Some (FunctionMatch_match fn cap s st c)) base ms"
  "balanced [] c base ms \<Longrightarrow> post_ok (Some (EOS_match s st c)) base ms"
  "balanced [] c base ms \<Longrightarrow> post_ok (Some (StringMatch_match str s st c)) base ms"
  "balanced [] c base ms \<Longrightarrow> post_ok (Some (Any_match_int cap l s st c)) base ms"
  by (auto simp: post_ok_def DirectMatch_match_def AnyOfMatch_match_def FunctionMatch_match_def
      EOS_match_def StringMatch_match_def Any_match_int_def
      split: pos.splits sum.splits fm_result.splits seq.splits)


lemma bal_sub:
  "balanced (pre @ h) c base ms \<Longrightarrow> balanced h c (base @ pre) (drop (Suc (length h)) (internal c))"
  by (auto simp: balanced_def)

lemma bal_join:
  assumes "balanced (pre @ h) c base ms"
    and "balanced h' c' (base @ pre) (drop (Suc (length h)) (internal c))"
  shows "balanced (pre @ h') c' base ms"
proof -
  let ?ms' = "drop (Suc (length h)) (internal c)"
  from assms(1) have l: "length (internal c) = Suc (length pre + length h) + length ms"
    and d: "drop (Suc (length pre + length h)) (internal c) = ms"
    by (auto simp: balanced_def)
  from assms(2) have k': "keys c' = base @ pre @ h'"
    and l': "length (internal c') = Suc (length h') + length ?ms'"
    and d': "drop (Suc (length h')) (internal c') = ?ms'"
    by (auto simp: balanced_def)
  have "drop (length pre) (drop (Suc (length h')) (internal c')) = drop (length pre) ?ms'"
    using d' by simp
  then have "drop (Suc (length pre + length h')) (internal c') = ms"
    using d by (simp add: add.commute)
  moreover have "length (internal c') = Suc (length pre + length h') + length ms"
    using l l' by simp
  ultimately show ?thesis using k' by (simp add: balanced_def)
qed

lemma interleave_last:
  "length ks = length its \<Longrightarrow> its \<noteq> [] \<Longrightarrow>
   interleave ks (map held its) =
     (interleave (butlast ks) (map held (butlast its)) @ [last ks]) @ held (last its)"
proof -
  assume a: "length ks = length its" "its \<noteq> []"
  then obtain ks0 k its0 g where e: "ks = ks0 @ [k]" "its = its0 @ [g]"
    by (metis append_butlast_last_id length_0_conv)
  with a have "length ks0 = length (map held its0)" by simp
  from interleave_snoc[OF this] e show ?thesis by simp
qed

lemma stack_sub:
  fixes its :: "('a, 'v) gen list"
  assumes "next_inv f s TYPE(('a, 'v) gen)" "length ks = length its" "Suc (length rs) = length its"
    "list_all wf_gen its" "balanced (interleave ks (map held its)) c base ms"
  shows "case next f s (its ! length rs) c of
           None \<Rightarrow> True
         | Some (Raise e) \<Rightarrow> True
         | Some (Yield r g' c1) \<Rightarrow>
             list_all wf_gen (its[length rs := g']) \<and>
             balanced (interleave ks (map held (its[length rs := g']))) c1 base ms
         | Some (Stop c1) \<Rightarrow>
             (\<exists>c2. exit (last ks) c1 = Inr c2 \<and>
                balanced (interleave (butlast ks) (map held (butlast its))) c2 base ms)"
proof -
  from assms obtain ks0 k its0 g where e: "ks = ks0 @ [k]" "its = its0 @ [g]"
    by (metis append_butlast_last_id length_0_conv Zero_not_Suc)
  with assms have l: "length its0 = length rs" "length ks0 = length its0" by auto
  let ?pre = "interleave ks0 (map held its0) @ [k]"
  have h: "interleave ks (map held its) = ?pre @ held g"
    using e l interleave_snoc[of ks0 "map held its0" k "held g"] by simp
  have idx: "its ! length rs = g" using e l by (simp add: nth_append)
  have wg: "wf_gen g" using assms(4) e by simp
  have b: "balanced (?pre @ held g) c base ms" using assms(5) h by simp
  from bal_sub[OF b] have bs: "balanced (held g) c (base @ ?pre) (drop (Suc (length (held g))) (internal c))" .
  with assms(1) wg have po: "post_ok (next f s g c) (base @ ?pre) (drop (Suc (length (held g))) (internal c))"
    unfolding next_inv_def by blast
  show ?thesis
  proof (cases "next f s g c")
    case None
    then show ?thesis using idx by simp
  next
    case (Some st)
    show ?thesis
    proof (cases st)
      case (Yield r g' c1)
      with po Some have w': "wf_gen g'" and b': "balanced (held g') c1 (base @ ?pre) (drop (Suc (length (held g))) (internal c))"
        by (auto simp: post_ok_def)
      have u: "its[length rs := g'] = its0 @ [g']" using e l by (metis list_update_length)
      have h': "interleave ks (map held (its0 @ [g'])) = ?pre @ held g'"
        using e l interleave_snoc[of ks0 "map held its0" k "held g'"] by simp
      from bal_join[OF b b'] have "balanced (?pre @ held g') c1 base ms" .
      with w' u h' assms(4) e show ?thesis using Some Yield idx by simp
    next
      case (Stop c1)
      with po Some have "balanced [] c1 (base @ ?pre) (drop (Suc (length (held g))) (internal c))"
        by (auto simp: post_ok_def)
      from bal_join[OF b this] have "balanced (interleave ks0 (map held its0) @ [k]) c1 base ms" by simp
      from bal_exit[OF this] show ?thesis using Some Stop idx e by simp
    next
      case (Raise e)
      then show ?thesis using Some idx by simp
    qed
  qed
qed


lemma next_inv_D:
  "next_inv f s TYPE(('a, 'v) gen) \<Longrightarrow> wf_gen (g :: ('a, 'v) gen) \<Longrightarrow> balanced (held g) c base ms
   \<Longrightarrow> post_ok (next f s g c) base ms"
  unfolding next_inv_def by blast

lemma wrap_sub:
  fixes sub :: "('a, 'v) gen"
  assumes "next_inv f s TYPE(('a, 'v) gen)" "wf_gen sub" "balanced (k # held sub) c base ms"
  shows "case next f s sub c of
           None \<Rightarrow> True
         | Some (Raise e) \<Rightarrow> True
         | Some (Yield r g' c1) \<Rightarrow> wf_gen g' \<and> balanced (k # held g') c1 base ms
         | Some (Stop c1) \<Rightarrow> (\<exists>c2. exit k c1 = Inr c2 \<and> balanced [] c2 base ms)"
proof -
  have b: "balanced ([k] @ held sub) c base ms" using assms(3) by simp
  from next_inv_D[OF assms(1,2) bal_sub[OF b]]
  have po: "post_ok (next f s sub c) (base @ [k]) (drop (Suc (length (held sub))) (internal c))" .
  show ?thesis
  proof (cases "next f s sub c")
    case None
    then show ?thesis by simp
  next
    case (Some st)
    show ?thesis
    proof (cases st)
      case (Yield r g' c1)
      with po Some have w': "wf_gen g'"
        and b': "balanced (held g') c1 (base @ [k]) (drop (Suc (length (held sub))) (internal c))"
        by (auto simp: post_ok_def)
      from bal_join[OF b b'] w' show ?thesis using Some Yield by simp
    next
      case (Stop c1)
      with po Some have "balanced [] c1 (base @ [k]) (drop (Suc (length (held sub))) (internal c))"
        by (auto simp: post_ok_def)
      from bal_join[OF b this] have "balanced ([] @ [k]) c1 base ms" by simp
      from bal_exit[OF this] show ?thesis using Some Stop by simp
    next
      case (Raise e)
      then show ?thesis using Some by simp
    qed
  qed
qed

lemma step_AltLoop:
  assumes "next_inv f s TYPE(('a, 'v) gen)" "balanced [] c base ms"
  shows "post_ok (next (Suc f) s (AltLoop ps st :: ('a, 'v) gen) c) base ms"
proof (cases ps)
  case Nil
  then show ?thesis using assms by (simp add: post_ok_def)
next
  case (Cons p rest)
  obtain k c1 where e: "enter c = (k, c1)" by (cases "enter c")
  from bal_enter[OF assms(2) e] have "balanced (held (AltY rest st k (Fresh p st))) c1 base ms" by simp
  from next_inv_D[OF assms(1) _ this] show ?thesis using Cons e
    by simp
qed


lemma step_AltY:
  fixes sub :: "('a, 'v) gen"
  assumes "next_inv f s TYPE(('a, 'v) gen)" "wf_gen sub" "balanced (k # held sub) c base ms"
  shows "post_ok (next (Suc f) s (AltY rest st k sub) c) base ms"
proof -
  note w = wrap_sub[OF assms]
  show ?thesis
  proof (cases "next f s sub c")
    case None
    then show ?thesis by (simp add: post_ok_def)
  next
    case (Some r)
    show ?thesis
    proof (cases r)
      case (Yield v g' c1)
      with w Some show ?thesis by (simp add: post_ok_def)
    next
      case (Stop c1)
      with w Some obtain c2 where e: "exit k c1 = Inr c2" and b: "balanced [] c2 base ms" by auto
      have "balanced (held (AltLoop rest st :: ('a, 'v) gen)) c2 base ms" using b by simp
      from next_inv_D[OF assms(1) _ this] show ?thesis using Some Stop e by simp
    next
      case (Raise e)
      with Some show ?thesis by (simp add: post_ok_def)
    qed
  qed
qed

lemma step_LookY:
  fixes sub :: "('a, 'v) gen"
  assumes "next_inv f s TYPE(('a, 'v) gen)" "wf_gen sub" "balanced (k # held sub) c base ms"
  shows "post_ok (next (Suc f) s (LookY st k sub) c) base ms"
proof -
  note w = wrap_sub[OF assms]
  show ?thesis
  proof (cases "next f s sub c")
    case None
    then show ?thesis by (simp add: post_ok_def)
  next
    case (Some r)
    with w show ?thesis by (cases r) (auto simp: post_ok_def)
  qed
qed

lemma step_AnyLoop:
  assumes "next_inv f s TYPE(('a, 'v) gen)" "balanced [] c base ms"
  shows "post_ok (next (Suc f) s (AnyLoop cap n ls :: ('a, 'v) gen) c) base ms"
proof (cases ls)
  case Nil
  then show ?thesis using assms by (simp add: post_ok_def)
next
  case (Cons l rest)
  obtain k c1 where e: "enter c = (k, c1)" by (cases "enter c")
  from bal_enter[OF assms(2) e] have b1: "balanced [k] c1 base ms" by simp
  have "balanced (held (AnyLoop cap n rest :: ('a, 'v) gen)) c base ms" using assms(2) by simp
  from next_inv_D[OF assms(1) _ this] b1 show ?thesis using Cons e
    by (simp add: post_ok_def)
qed

lemma step_AnyY:
  assumes "next_inv f s TYPE(('a, 'v) gen)" "balanced [k] c base ms"
  shows "post_ok (next (Suc f) s (AnyY cap n k rest :: ('a, 'v) gen) c) base ms"
proof -
  from bal_exit[of "[]" k c base ms] assms(2) obtain c1 where e: "exit k c = Inr c1"
    and b: "balanced [] c1 base ms" by auto
  have "balanced (held (AnyLoop cap n rest :: ('a, 'v) gen)) c1 base ms" using b by simp
  from next_inv_D[OF assms(1) _ this] show ?thesis using e by simp
qed

lemma step_SELoop:
  assumes "next_inv f s TYPE(('a, 'v) gen)" "balanced [] c base ms"
  shows "post_ok (next (Suc f) s (SELoop effect target cap i stack :: ('a, 'v) gen) c) base ms"
proof -
  obtain k c1 where e: "enter c = (k, c1)" by (cases "enter c")
  from bal_enter[OF assms(2) e] have b1: "balanced [k] c1 base ms" by simp
  have "balanced (held (SELoop effect target cap (i + 1) (stack + effect (item s i)) :: ('a, 'v) gen)) c base ms"
    using assms(2) by simp
  from next_inv_D[OF assms(1) _ this] b1 show ?thesis using e assms(2)
    by (simp add: post_ok_def Let_def)
qed

lemma step_SEY:
  assumes "next_inv f s TYPE(('a, 'v) gen)" "balanced [k] c base ms"
  shows "post_ok (next (Suc f) s (SEY effect target cap i stack k :: ('a, 'v) gen) c) base ms"
proof -
  from bal_exit[of "[]" k c base ms] assms(2) obtain c1 where e: "exit k c = Inr c1"
    and b: "balanced [] c1 base ms" by auto
  have "balanced (held (SELoop effect target cap (i + 1) stack :: ('a, 'v) gen)) c1 base ms" using b by simp
  from next_inv_D[OF assms(1) _ this] show ?thesis using e by simp
qed


lemma interleave_butlast_upd:
  "Suc (length rs) = length its \<Longrightarrow> butlast (its[length rs := g]) = butlast its"
  by (cases its rule: rev_cases) (auto simp: list_update_append)

lemma list_all_butlast: "list_all Q xs \<Longrightarrow> list_all Q (butlast xs)"
  by (cases xs rule: rev_cases) auto

lemma wf_CatLoop_held:
  "held (CatLoop ps ks its rs) = interleave ks (map held its)"
  by simp

lemma step_CatLoop:
  fixes its :: "('a, 'v) gen list"
  assumes ih: "next_inv f s TYPE(('a, 'v) gen)"
    and wf: "wf_gen (CatLoop ps ks its rs)"
    and b: "balanced (held (CatLoop ps ks its rs)) c base ms"
  shows "post_ok (next (Suc f) s (CatLoop ps ks its rs) c) base ms"
proof -
  from wf have lk: "length ks = length its"
    and lr: "length rs = length its \<or> Suc (length rs) = length its"
    and wa: "list_all wf_gen its" by auto
  from b have b0: "balanced (interleave ks (map held its)) c base ms" by simp
  consider (empty) "its = []"
    | (pull) "its \<noteq> []" "Suc (length rs) = length its"
    | (push) "its \<noteq> []" "length rs = length its" "length its < length ps"
    | (yield) "its \<noteq> []" "length rs = length its" "length its = length ps"
    | (spin) "its \<noteq> []" "length rs = length its" "length its > length ps"
    using lr by fastforce
  then show ?thesis
  proof cases
    case empty
    with lk b0 show ?thesis by (simp add: post_ok_def)
  next
    case pull
    note ss = stack_sub[OF ih lk pull(2) wa b0]
    show ?thesis
    proof (cases "next f s (its ! length rs) c")
      case None
      with pull lk show ?thesis by (simp add: post_ok_def)
    next
      case (Some r)
      show ?thesis
      proof (cases r)
        case (Yield v g' c1)
        with ss Some have w': "list_all wf_gen (its[length rs := g'])"
          and b': "balanced (interleave ks (map held (its[length rs := g']))) c1 base ms" by auto
        have "wf_gen (CatLoop ps ks (its[length rs := g']) (rs @ [v]))"
          using w' lk pull by simp
        moreover have "balanced (held (CatLoop ps ks (its[length rs := g']) (rs @ [v]))) c1 base ms"
          using b' by simp
        ultimately have "post_ok (next f s (CatLoop ps ks (its[length rs := g']) (rs @ [v])) c1) base ms"
          by (rule next_inv_D[OF ih])
        with Some Yield pull lk show ?thesis by simp
      next
        case (Stop c1)
        with ss Some obtain c2 where e: "exit (last ks) c1 = Inr c2"
          and b2: "balanced (interleave (butlast ks) (map held (butlast its))) c2 base ms" by auto
        show ?thesis
        proof (cases "rs = []")
          case True
          with pull lk have "butlast ks = []"
            by (metis One_nat_def butlast_conv_take diff_Suc_1 length_0_conv list.size(3) take_eq_Nil)
          with b2 have "balanced [] c2 base ms" by simp
          with Some Stop e True pull lk show ?thesis by (simp add: post_ok_def)
        next
          case False
          let ?g = "CatLoop ps (butlast ks) (butlast (its[length rs := Done])) (butlast rs)"
          have bl: "butlast (its[length rs := Done]) = butlast its"
            using pull by (simp add: interleave_butlast_upd)
          have "wf_gen ?g" using False pull lk wa
            by (auto simp: bl list_all_butlast)
          moreover have "balanced (held ?g) c2 base ms" using b2 by (simp add: bl)
          ultimately have "post_ok (next f s ?g c2) base ms" by (rule next_inv_D[OF ih])
          with Some Stop e False pull lk show ?thesis by simp
        qed
      next
        case (Raise e)
        with Some pull lk show ?thesis by (simp add: post_ok_def)
      qed
    qed
  next
    case push
    obtain k c1 where e: "enter c = (k, c1)" by (cases "enter c")
    let ?g = "CatLoop ps (ks @ [k]) (its @ [Fresh (ps ! length its) (last rs)]) rs"
    have "wf_gen ?g" using push lk wa by simp
    moreover have "balanced (held ?g) c1 base ms"
      using bal_enter[OF b0 e] lk interleave_snoc[of ks "map held its" k "[]"] by simp
    ultimately have "post_ok (next f s ?g c1) base ms" by (rule next_inv_D[OF ih])
    with push lk e show ?thesis by simp
  next
    case yield
    have "wf_gen (CatY ps ks its rs)" using yield lk wa by simp
    with yield lk b0 show ?thesis by (simp add: post_ok_def)
  next
    case spin
    from next_inv_D[OF ih wf b] spin lk show ?thesis by simp
  qed
qed

lemma step_CatY:
  fixes its :: "('a, 'v) gen list"
  assumes ih: "next_inv f s TYPE(('a, 'v) gen)"
    and wf: "wf_gen (CatY ps ks its rs)"
    and b: "balanced (held (CatY ps ks its rs)) c base ms"
  shows "post_ok (next (Suc f) s (CatY ps ks its rs) c) base ms"
proof (cases "its = []")
  case True
  have "wf_gen (CatLoop ps ks its (butlast rs))" using wf True by simp
  moreover have "balanced (held (CatLoop ps ks its (butlast rs))) c base ms" using b by simp
  ultimately have "post_ok (next f s (CatLoop ps ks its (butlast rs)) c) base ms" by (rule next_inv_D[OF ih])
  then show ?thesis by simp
next
  case False
  with wf have "rs \<noteq> []" by auto
  then have "Suc (length (butlast rs)) = length rs" by simp
  then have "wf_gen (CatLoop ps ks its (butlast rs))" using wf by simp
  moreover have "balanced (held (CatLoop ps ks its (butlast rs))) c base ms" using b by simp
  ultimately have "post_ok (next f s (CatLoop ps ks its (butlast rs)) c) base ms" by (rule next_inv_D[OF ih])
  then show ?thesis by simp
qed


lemma step_RepY:
  fixes its :: "('a, 'v) gen list"
  assumes ih: "next_inv f s TYPE(('a, 'v) gen)"
    and wf: "wf_gen (RepY b0 mn mx stp ks its rs)"
    and b: "balanced (held (RepY b0 mn mx stp ks its rs)) c base ms"
  shows "post_ok (next (Suc f) s (RepY b0 mn mx stp ks its rs) c) base ms"
proof -
  from wf have lk: "length ks = length its" and lr: "length rs = length its"
    and wa: "list_all wf_gen its" by auto
  from b have bb: "balanced (interleave ks (map held its)) c base ms" by simp
  show ?thesis
  proof (cases "case mx of None \<Rightarrow> True | Some m \<Rightarrow> int (length its) < m")
    case True
    obtain k c1 where e: "enter c = (k, c1)" by (cases "enter c")
    let ?g = "RepLoop b0 mn mx stp (ks @ [k]) (its @ [Fresh b0 (last rs)]) rs"
    have "wf_gen ?g" using lr lk wa by simp
    moreover have "balanced (held ?g) c1 base ms"
      using bal_enter[OF bb e] lk interleave_snoc[of ks "map held its" k "[]"] by simp
    ultimately have "post_ok (next f s ?g c1) base ms" by (rule next_inv_D[OF ih])
    with True e show ?thesis by simp
  next
    case False
    let ?g = "RepLoop b0 mn mx stp ks its (butlast rs)"
    have "length (butlast rs) = length its \<or> Suc (length (butlast rs)) = length its"
      using lr by (cases rs rule: rev_cases) auto
    then have "wf_gen ?g" using lk wa by simp
    moreover have "balanced (held ?g) c base ms" using bb by simp
    ultimately have "post_ok (next f s ?g c) base ms" by (rule next_inv_D[OF ih])
    with False show ?thesis by simp
  qed
qed

lemma step_RepLoop:
  fixes its :: "('a, 'v) gen list"
  assumes ih: "next_inv f s TYPE(('a, 'v) gen)"
    and wf: "wf_gen (RepLoop b0 mn mx stp ks its rs)"
    and b: "balanced (held (RepLoop b0 mn mx stp ks its rs)) c base ms"
  shows "post_ok (next (Suc f) s (RepLoop b0 mn mx stp ks its rs) c) base ms"
proof -
  from wf have lk: "length ks = length its"
    and lr: "length rs = length its \<or> Suc (length rs) = length its"
    and wa: "list_all wf_gen its" by auto
  from b have bb: "balanced (interleave ks (map held its)) c base ms" by simp
  consider (empty) "its = []"
    | (pull) "its \<noteq> []" "Suc (length rs) = length its"
    | (push) "its \<noteq> []" "length rs = length its" "int (length its) < mn"
    | (full) "its \<noteq> []" "length rs = length its" "\<not> int (length its) < mn"
    using lr by fastforce
  then show ?thesis
  proof cases
    case empty
    with lk bb show ?thesis by (simp add: post_ok_def)
  next
    case pull
    note ss = stack_sub[OF ih lk pull(2) wa bb]
    show ?thesis
    proof (cases "next f s (its ! length rs) c")
      case None
      with pull lk show ?thesis by (simp add: post_ok_def)
    next
      case (Some r)
      show ?thesis
      proof (cases r)
        case (Yield v g' c1)
        with ss Some have w': "list_all wf_gen (its[length rs := g'])"
          and b': "balanced (interleave ks (map held (its[length rs := g']))) c1 base ms" by auto
        let ?g = "RepLoop b0 mn mx stp ks (its[length rs := g']) (rs @ [v])"
        have "wf_gen ?g" using w' lk pull by simp
        moreover have "balanced (held ?g) c1 base ms" using b' by simp
        ultimately have "post_ok (next f s ?g c1) base ms" by (rule next_inv_D[OF ih])
        with Some Yield pull lk show ?thesis by simp
      next
        case (Stop c1)
        with ss Some obtain c2 where e: "exit (last ks) c1 = Inr c2"
          and b2: "balanced (interleave (butlast ks) (map held (butlast its))) c2 base ms" by auto
        have bl: "butlast (its[length rs := Done]) = butlast its"
          using pull by (simp add: interleave_butlast_upd)
        show ?thesis
        proof (cases "butlast its = []")
          case True
          with b2 have "balanced [] c2 base ms" by simp
          with Some Stop e True pull lk bl show ?thesis by (simp add: post_ok_def)
        next
          case False
          with pull have rne: "rs \<noteq> []" by (cases its rule: rev_cases) auto
          let ?g = "RepLoop b0 mn mx stp (butlast ks) (butlast (its[length rs := Done])) (butlast rs)"
          have "wf_gen ?g" using rne pull lk wa
            by (auto simp: bl list_all_butlast)
          moreover have "balanced (held ?g) c2 base ms" using b2 by (simp add: bl)
          ultimately have "post_ok (next f s ?g c2) base ms" by (rule next_inv_D[OF ih])
          with Some Stop e False rne pull lk bl show ?thesis by simp
        qed
      next
        case (Raise e)
        with Some pull lk show ?thesis by (simp add: post_ok_def)
      qed
    qed
  next
    case push
    obtain k c1 where e: "enter c = (k, c1)" by (cases "enter c")
    let ?g = "RepLoop b0 mn mx stp (ks @ [k]) (its @ [Fresh b0 (last rs)]) rs"
    have "wf_gen ?g" using push lk wa by simp
    moreover have "balanced (held ?g) c1 base ms"
      using bal_enter[OF bb e] lk interleave_snoc[of ks "map held its" k "[]"] by simp
    ultimately have "post_ok (next f s ?g c1) base ms" by (rule next_inv_D[OF ih])
    with push lk e show ?thesis by simp
  next
    case full
    have wy: "wf_gen (RepY b0 mn mx stp ks its rs)" using full lk wa by simp
    have by': "balanced (held (RepY b0 mn mx stp ks its rs)) c base ms" using bb by simp
    from next_inv_D[OF ih wy by'] wy by' full lk show ?thesis by (simp add: post_ok_def)
  qed
qed

lemma step_Fresh:
  assumes ih: "next_inv f s TYPE(('a, 'v) gen)"
    and b: "balanced [] c base ms"
  shows "post_ok (next (Suc f) s (Fresh p st :: ('a, 'v) gen) c) base ms"
proof -
  obtain k c1 where e: "enter c = (k, c1)" by (cases "enter c")
  from bal_enter[OF b e] have b1: "balanced [k] c1 base ms" by simp
  have ihn: "\<And>g :: ('a, 'v) gen. wf_gen g \<Longrightarrow> held g = [] \<Longrightarrow> post_ok (next f s g c) base ms"
    using next_inv_D[OF ih] b by simp
  have ih1: "\<And>g :: ('a, 'v) gen. wf_gen g \<Longrightarrow> held g = [k] \<Longrightarrow> post_ok (next f s g c1) base ms"
    using next_inv_D[OF ih] b1 by simp
  show ?thesis
  proof (cases p)
    case (Alternation ps)
    then show ?thesis using ihn[of "AltLoop ps st"] by simp
  next
    case (Lookahead base nc)
    then show ?thesis using ih1[of "LookY st k (Fresh base st)"] e by simp
  next
    case EOS
    then show ?thesis using leaf_posts[OF b] by simp
  next
    case (Concatenation ps)
    show ?thesis
    proof (cases ps)
      case Nil
      with Concatenation e show ?thesis by (simp add: post_ok_def)
    next
      case (Cons p0 rest)
      with Concatenation e ih1[of "CatLoop ps [k] [Fresh p0 st] []"] show ?thesis by simp
    qed
  next
    case (Repeat b0 mn mx stp)
    then show ?thesis using ih1[of "RepLoop b0 mn mx stp [k] [Fresh b0 st] []"] e b
      by (simp add: post_ok_def)
  next
    case (Any cap ln)
    show ?thesis
    proof (cases ln)
      case (LInt l)
      with Any show ?thesis using leaf_posts[OF b] by simp
    next
      case (LSeq ls)
      with Any show ?thesis using ihn[of "AnyLoop cap _ ls"] b
        by (cases st) (auto simp: post_ok_def)
    qed
  next
    case (DirectMatch v cap)
    then show ?thesis using leaf_posts[OF b] by simp
  next
    case (FunctionMatch fn cap)
    then show ?thesis using leaf_posts[OF b] by simp
  next
    case (AnyOfMatch os cap)
    then show ?thesis using leaf_posts[OF b] by simp
  next
    case (StringMatch str)
    then show ?thesis using leaf_posts[OF b] by simp
  next
    case (StackEffectMatcher effect target cap)
    then show ?thesis using ihn[of "SELoop effect target cap _ 0"]
      by (cases st) (auto simp: post_ok_def)
  qed
qed

lemma next_inv_all: "next_inv f s TYPE(('a, 'v) gen)"
proof (induction f)
  case 0
  show ?case by (simp add: next_inv_def post_ok_def)
next
  case (Suc f)
  show ?case
    unfolding next_inv_def
  proof (intro allI impI)
    fix g :: "('a, 'v) gen" and c :: "('a, 'v) Captures" and base ms
    assume wf: "wf_gen g" and b: "balanced (held g) c base ms"
    show "post_ok (next (Suc f) s g c) base ms"
    proof (cases g)
      case (Fresh p st)
      with b show ?thesis using step_Fresh[OF Suc] by simp
    next
      case Done
      with b show ?thesis by (simp add: post_ok_def)
    next
      case (AltLoop ps st)
      with b show ?thesis using step_AltLoop[OF Suc] by simp
    next
      case (AltY rest st k sub)
      with b wf show ?thesis using step_AltY[OF Suc] by simp
    next
      case (LookY st k sub)
      with b wf show ?thesis using step_LookY[OF Suc] by simp
    next
      case (CatLoop ps ks its rs)
      with b wf show ?thesis using step_CatLoop[OF Suc] by blast
    next
      case (CatY ps ks its rs)
      with b wf show ?thesis using step_CatY[OF Suc] by blast
    next
      case (RepY0 b0 mn mx stp st)
      obtain k c1 where e: "enter c = (k, c1)" by (cases "enter c")
      from b RepY0 have "balanced [] c base ms" by simp
      from bal_enter[OF this e] have "balanced (held (RepLoop b0 mn mx stp [k] [Fresh b0 st] [])) c1 base ms"
        by simp
      from next_inv_D[OF Suc _ this] show ?thesis using RepY0 e by simp
    next
      case (RepLoop b0 mn mx stp ks its rs)
      with b wf show ?thesis using step_RepLoop[OF Suc] by blast
    next
      case (RepY b0 mn mx stp ks its rs)
      with b wf show ?thesis using step_RepY[OF Suc] by blast
    next
      case (AnyLoop cap n ls)
      with b show ?thesis using step_AnyLoop[OF Suc] by simp
    next
      case (AnyY cap n k rest)
      with b show ?thesis using step_AnyY[OF Suc] by simp
    next
      case (SELoop effect target cap i stack)
      with b show ?thesis using step_SELoop[OF Suc] by simp
    next
      case (SEY effect target cap i stack k)
      with b show ?thesis using step_SEY[OF Suc] by simp
    qed
  qed
qed

subsection \<open>More fuel does not change a result\<close>

lemma next_mono_Suc: "next f s g c = Some r \<Longrightarrow> next (Suc f) s g c = Some r"
proof (induction f arbitrary: g c r)
  case 0
  then show ?case by simp
next
  case (Suc f)
  note ih = Suc.IH
  show ?case
  proof (cases g)
    case (Fresh p st)
    show ?thesis using Suc.prems unfolding Fresh
      apply (subst next.simps)
      apply (subst (asm) next.simps)
      apply (auto split: pattern.splits any_length.splits pos.splits prod.splits list.splits if_splits dest: ih simp del: next.simps)
      done
  next
    case (AltY rest st k sub)
    from Suc.prems obtain r0 where r0: "next f s sub c = Some r0"
      unfolding AltY by (subst (asm) next.simps) (auto split: option.splits)
    note r1 = ih[OF r0]
    show ?thesis using Suc.prems r0 r1 unfolding AltY
      apply (subst next.simps)
      apply (subst (asm) next.simps)
      apply (auto split: step.splits sum.splits dest: ih simp del: next.simps)
      done
  next
    case (LookY st k sub)
    from Suc.prems obtain r0 where r0: "next f s sub c = Some r0"
      unfolding LookY by (subst (asm) next.simps) (auto split: option.splits)
    note r1 = ih[OF r0]
    show ?thesis using Suc.prems r0 r1 unfolding LookY
      apply (subst next.simps)
      apply (subst (asm) next.simps)
      apply (auto split: step.splits sum.splits dest: ih simp del: next.simps)
      done
  next
    case (CatLoop ps ks its rs)
    show ?thesis
    proof (cases "its \<noteq> [] \<and> length its = length ks \<and> length rs < length its")
      case True
      from Suc.prems True obtain r0 where r0: "next f s (its ! length rs) c = Some r0"
        unfolding CatLoop by (subst (asm) next.simps) (auto split: option.splits)
      note r1 = ih[OF r0]
      show ?thesis using Suc.prems r0 r1 True unfolding CatLoop
        apply (subst next.simps)
        apply (subst (asm) next.simps)
        apply (auto split: step.splits sum.splits dest: ih simp del: next.simps)
        done
    next
      case False
      show ?thesis using Suc.prems False unfolding CatLoop
        apply (subst next.simps)
        apply (subst (asm) next.simps)
        apply (auto split: prod.splits if_splits dest: ih simp del: next.simps)
        done
    qed
  next
    case (RepLoop b0 mn mx stp ks its rs)
    show ?thesis
    proof (cases "its \<noteq> [] \<and> length its = length ks \<and> length rs < length its")
      case True
      from Suc.prems True obtain r0 where r0: "next f s (its ! length rs) c = Some r0"
        unfolding RepLoop by (subst (asm) next.simps) (auto split: option.splits)
      note r1 = ih[OF r0]
      show ?thesis using Suc.prems r0 r1 True unfolding RepLoop
        apply (subst next.simps)
        apply (subst (asm) next.simps)
        apply (auto split: step.splits sum.splits dest: ih simp del: next.simps)
        done
    next
      case False
      show ?thesis using Suc.prems False unfolding RepLoop
        apply (subst next.simps)
        apply (subst (asm) next.simps)
        apply (auto split: prod.splits if_splits dest: ih simp del: next.simps)
        done
    qed
  next
    case Done
    then show ?thesis using Suc.prems by simp
  next
    case (AltLoop ps st)
    show ?thesis using Suc.prems unfolding AltLoop
      apply (subst next.simps)
      apply (subst (asm) next.simps)
      apply (auto split: prod.splits list.splits dest: ih simp del: next.simps)
      done
  next
    case (CatY ps ks its rs)
    show ?thesis using Suc.prems unfolding CatY
      apply (subst next.simps)
      apply (subst (asm) next.simps)
      apply (auto dest: ih simp del: next.simps)
      done
  next
    case (RepY0 b0 mn mx stp st)
    show ?thesis using Suc.prems unfolding RepY0
      apply (subst next.simps)
      apply (subst (asm) next.simps)
      apply (auto split: prod.splits dest: ih simp del: next.simps)
      done
  next
    case (RepY b0 mn mx stp ks its rs)
    show ?thesis using Suc.prems unfolding RepY
      apply (subst next.simps)
      apply (subst (asm) next.simps)
      apply (auto split: prod.splits if_splits dest: ih simp del: next.simps)
      done
  next
    case (AnyLoop cap n ls)
    show ?thesis using Suc.prems unfolding AnyLoop
      apply (subst next.simps)
      apply (subst (asm) next.simps)
      apply (auto split: prod.splits list.splits if_splits dest: ih simp del: next.simps)
      done
  next
    case (AnyY cap n k rest)
    show ?thesis using Suc.prems unfolding AnyY
      apply (subst next.simps)
      apply (subst (asm) next.simps)
      apply (auto split: sum.splits dest: ih simp del: next.simps)
      done
  next
    case (SELoop effect target cap i stack)
    show ?thesis using Suc.prems unfolding SELoop
      apply (subst next.simps)
      apply (subst (asm) next.simps)
      apply (auto split: prod.splits if_splits dest: ih simp del: next.simps simp: Let_def)
      done
  next
    case (SEY effect target cap i stack k)
    show ?thesis using Suc.prems unfolding SEY
      apply (subst next.simps)
      apply (subst (asm) next.simps)
      apply (auto split: sum.splits dest: ih simp del: next.simps)
      done
  qed
qed

lemma next_mono: "next f s g c = Some r \<Longrightarrow> next (f + n) s g c = Some r"
  by (induction n) (auto dest: next_mono_Suc)

lemma drain_mono_Suc: "drain f s g c = Some r \<Longrightarrow> drain (Suc f) s g c = Some r"
proof (induction f arbitrary: g c r)
  case 0
  then show ?case by simp
next
  case (Suc f)
  from Suc.prems obtain r0 where r0: "next f s g c = Some r0"
    by (auto split: option.splits)
  note r1 = next_mono_Suc[OF r0]
  show ?case
  proof (cases r0)
    case (Yield v g' c1)
    with Suc.prems r0 obtain r2 where r2: "drain f s g' c1 = Some r2"
      by (auto split: option.splits)
    from Suc.IH[OF r2] Suc.prems r0 r1 r2 Yield show ?thesis
      by (simp del: next.simps)
  next
    case (Stop c1)
    with Suc.prems r0 r1 show ?thesis by (simp del: next.simps)
  next
    case (Raise e)
    with Suc.prems r0 r1 show ?thesis by (simp del: next.simps)
  qed
qed

lemma drain_mono: "drain f s g c = Some r \<Longrightarrow> drain (f + n) s g c = Some r"
  by (induction n) (auto dest: drain_mono_Suc simp del: drain.simps)

subsection \<open>Draining a generator\<close>

lemma drain_balanced:
  fixes g :: "('a, 'v) gen"
  shows "wf_gen g \<Longrightarrow> balanced (held g) c base ms \<Longrightarrow> drain f s g c = Some (Inr (rs, c'))
    \<Longrightarrow> balanced [] c' base ms"
proof (induction f arbitrary: g c rs)
  case 0
  then show ?case by simp
next
  case (Suc f)
  from next_inv_D[OF next_inv_all Suc.prems(1,2)]
  have po: "post_ok (next f s g c) base ms" .
  show ?case
  proof (cases "next f s g c")
    case None
    with Suc.prems show ?thesis by simp
  next
    case (Some r)
    show ?thesis
    proof (cases r)
      case (Yield v g' c1)
      with Some Suc.prems(3) obtain rs' where d: "drain f s g' c1 = Some (Inr (rs', c'))"
        by (auto split: option.splits sum.splits)
      from po Some Yield have "wf_gen g'" "balanced (held g') c1 base ms"
        by (auto simp: post_ok_def)
      from Suc.IH[OF this d] show ?thesis .
    next
      case (Stop c1)
      with Some Suc.prems(3) po show ?thesis by (auto simp: post_ok_def)
    next
      case (Raise e)
      with Some Suc.prems(3) show ?thesis by simp
    qed
  qed
qed

lemma balanced_enter_whole:
  "internal c \<noteq> [] \<Longrightarrow> enter c = (k, c1) \<Longrightarrow> balanced [] c1 (keys c @ [k]) (internal c)"
  by (auto simp: balanced_def enter_def)

lemma exit_whole:
  "internal c \<noteq> [] \<Longrightarrow> balanced [] c1 (keys c @ [k]) (internal c)
   \<Longrightarrow> \<exists>c2. exit k c1 = Inr c2 \<and> internal c2 = internal c \<and> keys c2 = keys c"
  by (cases "internal c1"; cases "internal c")
     (auto simp: balanced_def exit_def parents_def)

lemma drain_head:
  assumes d: "drain f2 s g2 c2 = Some res"
    and h: "\<And>m r. next m s g2 c2 = Some r \<Longrightarrow> next (m + d) s g1 c1 = Some r"
  shows "drain (f2 + d) s g1 c1 = Some res"
proof (cases f2)
  case 0
  with d show ?thesis by simp
next
  case (Suc m)
  with d obtain r where r: "next m s g2 c2 = Some r" by (auto split: option.splits)
  note r' = h[OF r]
  show ?thesis
  proof (cases r)
    case (Yield v g' c')
    with d Suc r obtain res' where d': "drain m s g' c' = Some res'"
      by (auto split: option.splits)
    from drain_mono[OF d', of d] d d' Suc r r' Yield show ?thesis
      by (simp del: next.simps)
  next
    case (Stop c')
    with d Suc r r' show ?thesis by (simp del: next.simps)
  next
    case (Raise e)
    with d Suc r r' show ?thesis by (simp del: next.simps)
  qed
qed

lemma AltY_sim:
  assumes e: "exit k c1' = Inr c2"
    and d2: "drain f2 s (AltLoop ps st) c2 = Some (Inr (rs2, c3))"
  shows "drain f1 s sub c1 = Some (Inr (rs1, c1'))
    \<Longrightarrow> drain (Suc (f1 + f2)) s (AltY ps st k sub) c1 = Some (Inr (rs1 @ rs2, c3))"
proof (induction f1 arbitrary: sub c1 rs1)
  case 0
  then show ?case by simp
next
  case (Suc n)
  from Suc.prems obtain r where r: "next n s sub c1 = Some r" by (auto split: option.splits)
  show ?case
  proof (cases r)
    case (Yield v g' cy)
    with Suc.prems r obtain rs1' where d': "drain n s g' cy = Some (Inr (rs1', c1'))"
      and rs1: "rs1 = (v, cy) # rs1'"
      by (auto split: option.splits sum.splits)
    from next_mono[OF r, of f2] Yield
    have "next (Suc (n + f2)) s (AltY ps st k sub) c1 = Some (Yield v (AltY ps st k g') cy)"
      by simp
    with Suc.IH[OF d'] rs1 show ?thesis by (simp del: next.simps)
  next
    case (Stop cs)
    with Suc.prems r have cs: "cs = c1'" and rs1: "rs1 = []" by auto
    have "\<And>m r'. next m s (AltLoop ps st) c2 = Some r'
        \<Longrightarrow> next (m + Suc (Suc n)) s (AltY ps st k sub) c1 = Some r'"
    proof -
      fix m r'
      assume a: "next m s (AltLoop ps st) c2 = Some r'"
      from next_mono[OF r, of "Suc m"] have "next (Suc (m + n)) s sub c1 = Some (Stop c1')"
        using Stop cs by (simp add: add.commute)
      moreover from next_mono[OF a, of "Suc n"] have "next (Suc (m + n)) s (AltLoop ps st) c2 = Some r'"
        by simp
      ultimately show "next (m + Suc (Suc n)) s (AltY ps st k sub) c1 = Some r'"
        using e by (simp del: next.simps add: next.simps(9)[of "Suc (m + n)"])
    qed
    from drain_head[OF d2 this] rs1 show ?thesis by (simp add: add.commute del: next.simps drain.simps)
  next
    case (Raise e)
    with Suc.prems r show ?thesis by simp
  qed
qed


lemma alt_inv_next:
  fixes g :: "('a, 'v) gen"
  assumes ne: "internal c0 \<noteq> []"
  shows "alt_inv c0 g c \<Longrightarrow> next f s g c = Some r \<Longrightarrow>
    (case r of Yield v g' c' \<Rightarrow> alt_inv c0 g' c'
     | Stop c' \<Rightarrow> internal c' = internal c0 \<and> keys c' = keys c0
     | Raise e \<Rightarrow> True)"
proof (induction f arbitrary: g c)
  case 0
  then show ?case by simp
next
  case (Suc f)
  show ?case
  proof (cases g)
    case (AltLoop ps st)
    show ?thesis
    proof (cases ps)
      case Nil
      with Suc.prems AltLoop show ?thesis by (auto simp: alt_inv_def)
    next
      case (Cons p rest)
      obtain k c1 where e: "enter c = (k, c1)" by (cases "enter c")
      from Suc.prems(1) AltLoop have same: "internal c = internal c0" "keys c = keys c0"
        by (auto simp: alt_inv_def)
      with ne balanced_enter_whole[OF _ e] have "balanced [] c1 (keys c0 @ [k]) (internal c0)"
        by simp
      then have "alt_inv c0 (AltY rest st k (Fresh p st)) c1" by (simp add: alt_inv_def)
      moreover from Suc.prems(2) AltLoop Cons e
      have "next f s (AltY rest st k (Fresh p st)) c1 = Some r" by simp
      ultimately show ?thesis by (rule Suc.IH)
    qed
  next
    case (AltY rest st k sub)
    with Suc.prems(1) have w: "wf_gen sub"
      and b: "balanced (held sub) c (keys c0 @ [k]) (internal c0)"
      by (auto simp: alt_inv_def)
    from next_inv_D[OF next_inv_all w b]
    have po: "post_ok (next f s sub c) (keys c0 @ [k]) (internal c0)" .
    from Suc.prems(2) AltY obtain r0 where r0: "next f s sub c = Some r0"
      by (auto split: option.splits)
    show ?thesis
    proof (cases r0)
      case (Yield v g' c')
      with po r0 Suc.prems(2) AltY show ?thesis
        by (auto simp: post_ok_def alt_inv_def)
    next
      case (Stop c1)
      with po r0 have "balanced [] c1 (keys c0 @ [k]) (internal c0)" by (simp add: post_ok_def)
      from exit_whole[OF ne this] obtain c2 where e: "exit k c1 = Inr c2"
        and same: "internal c2 = internal c0" "keys c2 = keys c0" by auto
      then have "alt_inv c0 (AltLoop rest st) c2" by (simp add: alt_inv_def)
      moreover from Suc.prems(2) AltY r0 Stop e
      have "next f s (AltLoop rest st) c2 = Some r" by simp
      ultimately show ?thesis by (rule Suc.IH)
    next
      case (Raise e)
      with r0 Suc.prems(2) AltY show ?thesis by auto
    qed
  qed (insert Suc.prems(1), auto simp: alt_inv_def)
qed

lemma alt_inv_drain:
  fixes g :: "('a, 'v) gen"
  assumes ne: "internal c0 \<noteq> []"
  shows "alt_inv c0 g c \<Longrightarrow> drain f s g c = Some (Inr (rs, c'))
    \<Longrightarrow> internal c' = internal c0 \<and> keys c' = keys c0"
proof (induction f arbitrary: g c rs)
  case 0
  then show ?case by simp
next
  case (Suc f)
  from Suc.prems(2) obtain r where r: "next f s g c = Some r" by (auto split: option.splits)
  note n = alt_inv_next[OF ne Suc.prems(1) r]
  show ?case
  proof (cases r)
    case (Yield v g' c1)
    with Suc.prems(2) r obtain rs' where "drain f s g' c1 = Some (Inr (rs', c'))"
      by (auto split: option.splits sum.splits)
    with n Yield Suc.IH show ?thesis by auto
  next
    case (Stop c1)
    with Suc.prems(2) r n show ?thesis by auto
  next
    case (Raise e)
    with Suc.prems(2) r show ?thesis by auto
  qed
qed

lemma drain_Fresh_Alternation:
  "drain f s (Fresh (Alternation ps) st) c = Some res \<Longrightarrow> drain f s (AltLoop ps st) c = Some res"
proof -
  assume d: "drain f s (Fresh (Alternation ps) st) c = Some res"
  have "\<And>m r. next m s (Fresh (Alternation ps) st) c = Some r
      \<Longrightarrow> next (m + 0) s (AltLoop ps st) c = Some r"
  proof -
    fix m r
    assume a: "next m s (Fresh (Alternation ps) st) c = Some r"
    then obtain m' where m: "m = Suc m'" by (cases m) auto
    with a have "next m' s (AltLoop ps st) c = Some r" by simp
    from next_mono_Suc[OF this] m show "next (m + 0) s (AltLoop ps st) c = Some r" by simp
  qed
  from drain_head[OF d this] show ?thesis by simp
qed

text \<open>
  Claim C5 (capture isolation).  Let a branch \<open>p\<close> of an \<open>Alternation\<close> run in the scope
  \<open>k\<close> that the \<open>Alternation\<close> entered for it on the store \<open>c\<close>, until it is exhausted,
  whatever it yielded (\<open>rs1\<close>: no, one or more results) and whatever it bound.  Then
  the \<open>exit\<close> that closes the bracket succeeds and leaves a store \<open>c2\<close> with exactly the
  maps and keys of \<open>c\<close>: every binding of the abandoned branch is gone.  The remaining
  branches run as they would on that rolled-back store, and when they are exhausted
  too the store again has the maps and keys of \<open>c\<close>.
\<close>

theorem Alternation_capture_isolation:
  fixes c :: "('a, 'v) Captures"
  assumes ne: "internal c \<noteq> []"
    and en: "enter c = (k, c1)"
    and br: "drain f1 stream (Fresh p start) c1 = Some (Inr (rs1, c1'))"
  shows "\<exists>c2. exit k c1' = Inr c2 \<and> internal c2 = internal c \<and> keys c2 = keys c \<and>
    (\<forall>f2 rs2 c3.
       drain f2 stream (Fresh (Alternation ps) start) c2 = Some (Inr (rs2, c3)) \<longrightarrow>
         internal c3 = internal c \<and> keys c3 = keys c \<and>
         (\<exists>f. drain f stream (Fresh (Alternation (p # ps)) start) c = Some (Inr (rs1 @ rs2, c3))))"
proof -
  have b1: "balanced (held (Fresh p start :: ('a, 'v) gen)) c1 (keys c @ [k]) (internal c)"
    using balanced_enter_whole[OF ne en] by simp
  have "balanced [] c1' (keys c @ [k]) (internal c)"
    by (rule drain_balanced[OF _ b1 br]) simp
  from exit_whole[OF ne this] obtain c2 where e: "exit k c1' = Inr c2"
    and same: "internal c2 = internal c" "keys c2 = keys c" by auto
  have "internal c3 = internal c \<and> keys c3 = keys c \<and>
      (\<exists>f. drain f stream (Fresh (Alternation (p # ps)) start) c = Some (Inr (rs1 @ rs2, c3)))"
    if d: "drain f2 stream (Fresh (Alternation ps) start) c2 = Some (Inr (rs2, c3))"
    for f2 rs2 c3
  proof -
    from drain_Fresh_Alternation[OF d]
    have d2: "drain f2 stream (AltLoop ps start) c2 = Some (Inr (rs2, c3))" .
    have ne2: "internal c2 \<noteq> []" using ne same by simp
    have "alt_inv c2 (AltLoop ps start) c2" by (simp add: alt_inv_def)
    from alt_inv_drain[OF ne2 this d2] same
    have r1: "internal c3 = internal c \<and> keys c3 = keys c" by simp
    from AltY_sim[OF e d2 br]
    have d3: "drain (Suc (f1 + f2)) stream (AltY ps start k (Fresh p start)) c1
        = Some (Inr (rs1 @ rs2, c3))" .
    have "\<And>m r. next m stream (AltY ps start k (Fresh p start)) c1 = Some r
        \<Longrightarrow> next (m + 2) stream (Fresh (Alternation (p # ps)) start) c = Some r"
      using en by simp
    from drain_head[OF d3 this] r1 show ?thesis by blast
  qed
  with e same show ?thesis by blast
qed


text \<open>
  Witness for C5: on the stream \<open>[1]\<close> the branch \<open>DirectMatch(1, 'x')\<close> binds \<open>x\<close> and
  yields; once it is abandoned \<open>x\<close> is unbound again, and the second branch yields with
  no binding of \<open>x\<close> in the store.
\<close>

theorem Alternation_capture_isolation_witness:
  "internal (new_Captures :: (nat, unit) Captures) \<noteq> []
   \<and> enter (new_Captures :: (nat, unit) Captures)
       = (0, \<lparr>internal = [[], []], keys = [0], next_key = 1\<rparr>)
   \<and> drain 5 (PySeq [1]) (Fresh (DirectMatch 1 (Some ''x'')) (Idx 0))
         (\<lparr>internal = [[], []], keys = [0], next_key = 1\<rparr> :: (nat, unit) Captures)
       = Some (Inr ([(Idx 1, \<lparr>internal = [[(''x'', Token 1)], []], keys = [0], next_key = 1\<rparr>)],
                    \<lparr>internal = [[(''x'', Token 1)], []], keys = [0], next_key = 1\<rparr>))
   \<and> (\<exists>c2. exit 0 (\<lparr>internal = [[(''x'', Token 1)], []], keys = [0], next_key = 1\<rparr>
                     :: (nat, unit) Captures) = Inr c2
          \<and> internal c2 = [[]] \<and> keys c2 = []
          \<and> (\<exists>f. drain f (PySeq [1])
                     (Fresh (Alternation [DirectMatch 1 (Some ''x''), DirectMatch 1 None]) (Idx 0))
                     (new_Captures :: (nat, unit) Captures)
                 = Some (Inr ([(Idx 1, \<lparr>internal = [[(''x'', Token 1)], []], keys = [0], next_key = 1\<rparr>),
                               (Idx 1, \<lparr>internal = [[], []], keys = [1], next_key = 2\<rparr>)],
                              \<lparr>internal = [[]], keys = [], next_key = 2\<rparr>))))"
proof -
  let ?c = "new_Captures :: (nat, unit) Captures"
  let ?c1 = "\<lparr>internal = [[], []], keys = [0], next_key = 1\<rparr> :: (nat, unit) Captures"
  let ?c1' = "\<lparr>internal = [[(''x'', Token 1)], []], keys = [0], next_key = 1\<rparr> :: (nat, unit) Captures"
  let ?c2 = "\<lparr>internal = [[]], keys = [], next_key = 1\<rparr> :: (nat, unit) Captures"
  have h1: "internal ?c \<noteq> []" by (simp add: new_Captures_def)
  have h2: "enter ?c = (0, ?c1)" by (simp add: new_Captures_def enter_def)
  have h3: "drain 5 (PySeq [1]) (Fresh (DirectMatch 1 (Some ''x'')) (Idx 0)) ?c1
      = Some (Inr ([(Idx 1, ?c1')], ?c1'))"
    by code_simp
  have e: "exit 0 ?c1' = Inr ?c2" by (simp add: exit_def parents_def)
  have d: "drain 9 (PySeq [1]) (Fresh (Alternation [DirectMatch 1 None]) (Idx 0)) ?c2
      = Some (Inr ([(Idx 1, \<lparr>internal = [[], []], keys = [1], next_key = 2\<rparr>)],
                   \<lparr>internal = [[]], keys = [], next_key = 2\<rparr>))"
    by code_simp
  from Alternation_capture_isolation[OF h1 h2 h3, of "[DirectMatch 1 None]"]
  obtain c2 where a: "exit 0 ?c1' = Inr c2"
    and b: "internal c2 = internal ?c" "keys c2 = keys ?c"
    and al: "\<And>f2 rs2 c3.
       drain f2 (PySeq [1]) (Fresh (Alternation [DirectMatch 1 None]) (Idx 0)) c2
         = Some (Inr (rs2, c3)) \<Longrightarrow>
       (\<exists>f. drain f (PySeq [1])
              (Fresh (Alternation [DirectMatch 1 (Some ''x''), DirectMatch 1 None]) (Idx 0)) ?c
            = Some (Inr ([(Idx 1, ?c1')] @ rs2, c3)))"
    by blast
  from a e have c2: "c2 = ?c2" by simp
  from al[of 9] d c2 obtain f where
    "drain f (PySeq [1])
       (Fresh (Alternation [DirectMatch 1 (Some ''x''), DirectMatch 1 None]) (Idx 0)) ?c
     = Some (Inr ([(Idx 1, ?c1')] @ [(Idx 1, \<lparr>internal = [[], []], keys = [1], next_key = 2\<rparr>)],
                  \<lparr>internal = [[]], keys = [], next_key = 2\<rparr>))"
    by blast
  then have f: "\<exists>f. drain f (PySeq [1])
       (Fresh (Alternation [DirectMatch 1 (Some ''x''), DirectMatch 1 None]) (Idx 0)) ?c
     = Some (Inr ([(Idx 1, ?c1'), (Idx 1, \<lparr>internal = [[], []], keys = [1], next_key = 2\<rparr>)],
                  \<lparr>internal = [[]], keys = [], next_key = 2\<rparr>))"
    by (simp del: drain.simps next.simps) blast
  have i: "internal c2 = [[]]" "keys c2 = []" using b by (simp_all add: new_Captures_def)
  show ?thesis
    apply (intro conjI)
       apply (rule h1)
      apply (rule h2)
     apply (rule h3)
    apply (rule exI[of _ c2])
    apply (intro conjI)
       apply (rule a)
      apply (rule i)
     apply (rule i)
    apply (rule f)
    done
qed

text \<open>
  Claim C6 as stated fails: \<open>Any(length=[1, 2])\<close> has two emissions at the start of
  \<open>[1, 1, 1]\<close>, and \<open>Lookahead\<close> of it yields the start position twice, not once.
\<close>

theorem Lookahead_not_once_counterexample:
  "emissions 30 (PySeq [1, 1, 1 :: nat]) (Any None (LSeq [1, 2]) :: (nat, unit) pattern)
      (Idx 0) new_Captures = Some [Idx 1, Idx 2]
   \<and> emissions 30 (PySeq [1, 1, 1 :: nat])
        (Lookahead (Any None (LSeq [1, 2])) False :: (nat, unit) pattern)
        (Idx 0) new_Captures = Some [Idx 0, Idx 0]"
  by code_simp

lemma LookY_sim:
  "drain f s g c = Some (Inr (rs, c1)) \<Longrightarrow> exit k c1 = Inr c2 \<Longrightarrow>
   drain (Suc f) s (LookY start k g) c = Some (Inr (map (\<lambda>(r, cr). (start, cr)) rs, c2))"
proof (induction f arbitrary: g c rs)
  case 0
  then show ?case by simp
next
  case (Suc f)
  from Suc.prems(1) obtain st where st: "next f s g c = Some st" by (auto split: option.splits)
  show ?case
  proof (cases st)
    case (Yield r g' c')
    with st Suc.prems(1) obtain rs' where d: "drain f s g' c' = Some (Inr (rs', c1))"
      and rs: "rs = (r, c') # rs'"
      by (auto split: option.splits sum.splits)
    from Suc.IH[OF d Suc.prems(2)] st Yield rs show ?thesis by simp
  next
    case (Stop c')
    with st Suc.prems show ?thesis by auto
  next
    case (Raise e)
    with st Suc.prems show ?thesis by simp
  qed
qed

text \<open>
  Claim C6, amended.  \<open>Lookahead(inner).match\<close> runs \<open>inner\<close> in a scope of its own
  and yields the start position once for every value \<open>inner\<close> yields, with the store
  \<open>inner\<close> left at that yield: nothing when \<open>inner\<close> yields nothing, exactly once when
  it yields once.  It yields no other position, and when it is exhausted the store
  has the maps and keys it had before.
\<close>

theorem Lookahead_match_emissions:
  fixes c :: "('a, 'v) Captures"
  assumes ne: "internal c \<noteq> []"
    and en: "enter c = (k, c1)"
    and inner: "drain f stream (Fresh inner start) c1 = Some (Inr (rs, c1'))"
  shows "\<exists>c2. internal c2 = internal c \<and> keys c2 = keys c \<and>
    drain (Suc (Suc f)) stream (Fresh (Lookahead inner no_captures) start) c
      = Some (Inr (map (\<lambda>(r, cr). (start, cr)) rs, c2))"
proof -
  have b1: "balanced (held (Fresh inner start :: ('a, 'v) gen)) c1 (keys c @ [k]) (internal c)"
    using balanced_enter_whole[OF ne en] by simp
  have "balanced [] c1' (keys c @ [k]) (internal c)"
    by (rule drain_balanced[OF _ b1 inner]) simp
  from exit_whole[OF ne this] obtain c2 where e: "exit k c1' = Inr c2"
    and same: "internal c2 = internal c" "keys c2 = keys c" by auto
  from LookY_sim[OF inner e]
  have d: "drain (Suc f) stream (LookY start k (Fresh inner start)) c1
      = Some (Inr (map (\<lambda>(r, cr). (start, cr)) rs, c2))" .
  have "\<And>m r. next m stream (LookY start k (Fresh inner start)) c1 = Some r
      \<Longrightarrow> next (m + 1) stream (Fresh (Lookahead inner no_captures) start) c = Some r"
    using en by simp
  from drain_head[OF d this] same show ?thesis by auto
qed

text \<open>
  Witness for C6: \<open>Lookahead(Any(length=[1, 2]))\<close> on \<open>[1, 1, 1]\<close>.
\<close>

theorem Lookahead_match_emissions_witness:
  "internal (new_Captures :: (nat, unit) Captures) \<noteq> []
   \<and> enter (new_Captures :: (nat, unit) Captures)
       = (0, \<lparr>internal = [[], []], keys = [0], next_key = 1\<rparr>)
   \<and> drain 30 (PySeq [1, 1, 1]) (Fresh (Any None (LSeq [1, 2])) (Idx 0))
         (\<lparr>internal = [[], []], keys = [0], next_key = 1\<rparr> :: (nat, unit) Captures)
       = Some (Inr ([(Idx 1, \<lparr>internal = [[], [], []], keys = [0, 1], next_key = 2\<rparr>),
                     (Idx 2, \<lparr>internal = [[], [], []], keys = [0, 2], next_key = 3\<rparr>)],
                    \<lparr>internal = [[], []], keys = [0], next_key = 3\<rparr>))
   \<and> (\<exists>c2. internal c2 = [[]] \<and> keys c2 = [] \<and>
         drain 32 (PySeq [1, 1, 1]) (Fresh (Lookahead (Any None (LSeq [1, 2])) False) (Idx 0))
           (new_Captures :: (nat, unit) Captures)
         = Some (Inr ([(Idx 0, \<lparr>internal = [[], [], []], keys = [0, 1], next_key = 2\<rparr>),
                       (Idx 0, \<lparr>internal = [[], [], []], keys = [0, 2], next_key = 3\<rparr>)], c2)))"
proof -
  let ?c = "new_Captures :: (nat, unit) Captures"
  let ?c1 = "\<lparr>internal = [[], []], keys = [0], next_key = 1\<rparr> :: (nat, unit) Captures"
  have h1: "internal ?c \<noteq> []" by (simp add: new_Captures_def)
  have h2: "enter ?c = (0, ?c1)" by (simp add: new_Captures_def enter_def)
  have h3: "drain 30 (PySeq [1, 1, 1]) (Fresh (Any None (LSeq [1, 2])) (Idx 0)) ?c1
       = Some (Inr ([(Idx 1, \<lparr>internal = [[], [], []], keys = [0, 1], next_key = 2\<rparr>),
                     (Idx 2, \<lparr>internal = [[], [], []], keys = [0, 2], next_key = 3\<rparr>)],
                    \<lparr>internal = [[], []], keys = [0], next_key = 3\<rparr>))"
    by code_simp
  from Lookahead_match_emissions[OF h1 h2 h3, of False]
  obtain c2 where b: "internal c2 = internal ?c" "keys c2 = keys ?c"
    and d: "drain (Suc (Suc 30)) (PySeq [1, 1, 1])
        (Fresh (Lookahead (Any None (LSeq [1, 2])) False) (Idx 0)) ?c
      = Some (Inr (map (\<lambda>(r, cr). (Idx 0, cr))
           [(Idx 1, \<lparr>internal = [[], [], []], keys = [0, 1], next_key = 2\<rparr>),
            (Idx 2, \<lparr>internal = [[], [], []], keys = [0, 2], next_key = 3\<rparr>)], c2))"
    by blast
  have n: "Suc (Suc 30) = (32 :: nat)" by simp
  from d have "drain 32 (PySeq [1, 1, 1])
        (Fresh (Lookahead (Any None (LSeq [1, 2])) False) (Idx 0)) ?c
      = Some (Inr ([(Idx 0, \<lparr>internal = [[], [], []], keys = [0, 1], next_key = 2\<rparr>),
                    (Idx 0, \<lparr>internal = [[], [], []], keys = [0, 2], next_key = 3\<rparr>)], c2))"
    unfolding n by (simp del: drain.simps next.simps)
  then have d': "drain 32 (PySeq [1, 1, 1])
        (Fresh (Lookahead (Any None (LSeq [1, 2])) False) (Idx 0)) ?c
      = Some (Inr ([(Idx 0, \<lparr>internal = [[], [], []], keys = [0, 1], next_key = 2\<rparr>),
                    (Idx 0, \<lparr>internal = [[], [], []], keys = [0, 2], next_key = 3\<rparr>)], c2))" .
  have i: "internal c2 = [[]]" "keys c2 = []" using b by (simp_all add: new_Captures_def)
  show ?thesis
    apply (intro conjI)
       apply (rule h1)
      apply (rule h2)
     apply (rule h3)
    apply (rule exI[of _ c2])
    apply (intro conjI)
      apply (rule i)
     apply (rule i)
    apply (rule d')
    done
qed

text \<open>
  Claim C1 fails on the code: \<open>_match\<close> ignores its \<open>start\<close>.  On the stream \<open>[1, 2]\<close>
  the pattern \<open>DirectMatch(2)\<close> has an emission at start index 1, and \<open>search\<close> returns
  \<open>None\<close>.
\<close>

theorem search_ignores_start:
  "emits_at (Suc f) (DirectMatch 2 None :: (nat, unit) pattern) (PySeq [1, 2]) 1
   \<and> search (Suc f) (DirectMatch 2 None :: (nat, unit) pattern) (PySeq [1, 2]) = Some (Inr None)"
  by (simp add: emits_at_def search_def MatcherFirst__match_def DirectMatch_match_def len_def
      item_def)

text \<open>
  Claim C4 fails on the code: with \<open>min == 0\<close> the first value \<open>Repeat.match\<close> yields is
  the tuple \<open>(start, {})\<close>, not the start index; so \<open>Repeat(p, 0, None, 1)\<close> over an
  input that \<open>p\<close> does not match yields that tuple only.  \<open>Repeat(p, 2, 4, 1)\<close> over
  five tokens that \<open>p\<close> matches yields the end positions of the counts 2, 3 and 4.
\<close>

theorem Repeat_min_0_yields_tuple:
  "next (Suc f) stream (Fresh (Repeat base 0 mx stp) start) c
     = Some (Yield (Tup start) (RepY0 base 0 mx stp start) c)
   \<and> emissions 30 (PySeq [2]) (Repeat (DirectMatch (1::nat) None) 0 None 1 :: (nat, unit) pattern)
        (Idx 0) new_Captures = Some [Tup (Idx 0)]
   \<and> emissions 30 (PySeq [1, 1, 1, 1, 1])
        (Repeat (DirectMatch (1::nat) None) 2 (Some 4) 1 :: (nat, unit) pattern)
        (Idx 0) new_Captures = Some [Idx 2, Idx 3, Idx 4]"
proof -
  have "emissions 30 (PySeq [2]) (Repeat (DirectMatch (1::nat) None) 0 None 1 :: (nat, unit) pattern)
        (Idx 0) new_Captures = Some [Tup (Idx 0)]" by code_simp
  moreover have "emissions 30 (PySeq [1, 1, 1, 1, 1])
        (Repeat (DirectMatch (1::nat) None) 2 (Some 4) 1 :: (nat, unit) pattern)
        (Idx 0) new_Captures = Some [Idx 2, Idx 3, Idx 4]" by code_simp
  ultimately show ?thesis by simp
qed

text \<open>
  Claim C9 fails on the code: with a left operand that is not a \<open>Concatenation\<close>
  (not an \<open>Alternation\<close>) the operator is \<open>Pattern.__add__\<close> (\<open>Pattern.__or__\<close>),
  which nests a right operand that is one.
\<close>

theorem add_nests_Concatenation:
  "add (DirectMatch (1::nat) None :: (nat, unit) pattern)
       (Concatenation [DirectMatch 2 None, DirectMatch 3 None])
     = Concatenation [DirectMatch 1 None, Concatenation [DirectMatch 2 None, DirectMatch 3 None]]
   \<and> or (DirectMatch (1::nat) None :: (nat, unit) pattern)
       (Alternation [DirectMatch 2 None, DirectMatch 3 None])
     = Alternation [DirectMatch 1 None, Alternation [DirectMatch 2 None, DirectMatch 3 None]]"
  by (simp add: add_def or_def Pattern_add_def Pattern_or_def)

text \<open>
  The operators do flatten when the left operand is already a \<open>Concatenation\<close>
  (an \<open>Alternation\<close>).
\<close>

lemma add_flattens_left:
  "add (Concatenation ps) q = Concatenation (ps @ cat_elems q)"
  by (cases q) (simp_all add: add_def Concatenation_add_def cat_elems_def)

lemma or_flattens_left:
  "or (Alternation ps) q = Alternation (ps @ alt_elems q)"
  by (cases q) (simp_all add: or_def Alternation_or_def alt_elems_def)

text \<open>
  Whatever \<open>search\<close> returns starts at 0, and on an empty stream it returns \<open>None\<close>
  without trying the pattern.
\<close>

lemma search_loop_start_0:
  "search_loop fuel pattern stream start = Some (Inr (Some r)) \<Longrightarrow> mr_start r = 0"
proof (induction fuel pattern stream start rule: search_loop.induct)
  case (1 fuel pattern stream start)
  then show ?case
    by (subst (asm) (2) search_loop.simps)
       (auto simp: MatcherFirst__match_def split: if_splits option.splits sum.splits step.splits)
qed

lemma search_empty_stream: "search fuel pattern (PySeq []) = Some (Inr None)"
  by (simp add: search_def len_def)

section \<open>Properties of the assembler\<close>

subsection \<open>Encoding an operand\<close>

lemma operand_index_jrel:
  "opcode self \<notin> set (hasname T) \<Longrightarrow> opcode self \<notin> set (haslocal T)
   \<Longrightarrow> opcode self \<notin> set (hasconst T) \<Longrightarrow> opcode self \<notin> set (hascompare T)
   \<Longrightarrow> opcode self \<notin> set (hasfree T) \<Longrightarrow> opcode self \<in> set (hasjrel T)
   \<Longrightarrow> is_Label (arg self)
   \<Longrightarrow> operand_index T self ci own (Some t) = Inr (int t - int own - 1)"
  by (simp add: operand_index_def)

lemma get_raw_Inr:
  "get_raw T self ci own j = Inr rs \<Longrightarrow>
     opcode self < HAVE_ARGUMENT T \<or> (\<exists>a. operand_index T self ci own j = Inr a \<and> 0 \<le> a)"
  by (cases "operand_index T self ci own j") (simp_all add: get_raw_def split: if_splits)

text \<open>
  Claim C10.  \<open>get_raw\<close> returns an encoding of an instruction with an operand only
  when the resolved operand index is non-negative.  In particular, for a
  relative jump to a \<open>Label\<close> (an opcode of \<open>hasjrel\<close> that none of the earlier tests
  of the chain takes) with the resolved target \<open>t\<close> and the own index \<open>own\<close>, the
  assertion fails whenever \<open>t \<le> own\<close>, and the jump is encoded whenever \<open>own < t\<close>:
  only forward relative jumps can be encoded.
\<close>

theorem get_raw_operand_nonnegative:
  "(get_raw T self ci own j = Inr rs \<longrightarrow>
      opcode self < HAVE_ARGUMENT T \<or> (\<exists>a. operand_index T self ci own j = Inr a \<and> 0 \<le> a))
   \<and> (\<not> opcode self < HAVE_ARGUMENT T \<and> opcode self \<notin> set (hasname T)
        \<and> opcode self \<notin> set (haslocal T) \<and> opcode self \<notin> set (hasconst T)
        \<and> opcode self \<notin> set (hascompare T) \<and> opcode self \<notin> set (hasfree T)
        \<and> opcode self \<in> set (hasjrel T) \<and> is_Label (arg self) \<longrightarrow>
        (t \<le> own \<longrightarrow> get_raw T self ci own (Some t) = Inl AssertionError)
        \<and> (own < t \<longrightarrow> (\<exists>rs'. get_raw T self ci own (Some t) = Inr rs')))"
proof (intro conjI impI)
  assume "get_raw T self ci own j = Inr rs"
  then show "opcode self < HAVE_ARGUMENT T \<or> (\<exists>a. operand_index T self ci own j = Inr a \<and> 0 \<le> a)"
    by (rule get_raw_Inr)
next
  assume a: "\<not> opcode self < HAVE_ARGUMENT T \<and> opcode self \<notin> set (hasname T)
        \<and> opcode self \<notin> set (haslocal T) \<and> opcode self \<notin> set (hasconst T)
        \<and> opcode self \<notin> set (hascompare T) \<and> opcode self \<notin> set (hasfree T)
        \<and> opcode self \<in> set (hasjrel T) \<and> is_Label (arg self)"
  then have oi: "operand_index T self ci own (Some t) = Inr (int t - int own - 1)"
    by (simp add: operand_index_jrel)
  {
    assume "t \<le> own"
    with a oi show "get_raw T self ci own (Some t) = Inl AssertionError"
      by (simp add: get_raw_def)
  }
  {
    assume "own < t"
    with a oi show "\<exists>rs'. get_raw T self ci own (Some t) = Inr rs'"
      by (simp add: get_raw_def Let_def)
  }
qed

text \<open>
  Witness for C10: \<open>JUMP_FORWARD\<close> at index 5, to the targets 7, 5 and 3.
\<close>

theorem get_raw_operand_nonnegative_witness:
  "get_raw dis_3_10 \<lparr>opcode = 110, arg = BasicBlockTarget 2 0\<rparr> example_info 5 (Some 7) = Inr [(110, Some 1)]
   \<and> get_raw dis_3_10 \<lparr>opcode = 110, arg = BasicBlockTarget 2 0\<rparr> example_info 5 (Some 5) = Inl AssertionError
   \<and> get_raw dis_3_10 \<lparr>opcode = 110, arg = BasicBlockTarget 2 0\<rparr> example_info 5 (Some 3) = Inl AssertionError"
proof -
  let ?i = "\<lparr>opcode = 110, arg = BasicBlockTarget 2 0\<rparr>"
  have c: "\<not> opcode ?i < HAVE_ARGUMENT dis_3_10 \<and> opcode ?i \<notin> set (hasname dis_3_10)
        \<and> opcode ?i \<notin> set (haslocal dis_3_10) \<and> opcode ?i \<notin> set (hasconst dis_3_10)
        \<and> opcode ?i \<notin> set (hascompare dis_3_10) \<and> opcode ?i \<notin> set (hasfree dis_3_10)
        \<and> opcode ?i \<in> set (hasjrel dis_3_10) \<and> is_Label (arg ?i)"
    by (simp add: dis_3_10_def is_Label_def)
  have a: "get_raw dis_3_10 ?i example_info 5 (Some 5) = Inl AssertionError"
    using get_raw_operand_nonnegative[of dis_3_10 ?i example_info 5 "Some 5" "[]" 5] c by simp
  have b: "get_raw dis_3_10 ?i example_info 5 (Some 3) = Inl AssertionError"
    using get_raw_operand_nonnegative[of dis_3_10 ?i example_info 5 "Some 3" "[]" 3] c by simp
  have d: "get_raw dis_3_10 ?i example_info 5 (Some 7) = Inr [(110, Some 1)]"
    by (simp add: get_raw_def operand_index_def dis_3_10_def is_Label_def)
  from a b d show ?thesis by simp
qed

text \<open>
  Claim C8 fails on the code: \<open>make_sure\<close> tests \<open>value not in l\<close> and returns
  \<open>l.index(value)\<close> for every table, the constants too.  With the constants \<open>[1]\<close>,
  \<open>make_sure('consts', True)\<close> appends nothing and returns the index 0 of the
  entry \<open>1\<close>, which equals \<open>True\<close> and is of another type.
\<close>

theorem make_sure_consts_plain_equality:
  "make_sure Consts (PBool True) (ci\<lparr>co_consts := [PInt 1]\<rparr>) = (Inr 0, ci\<lparr>co_consts := [PInt 1]\<rparr>)
   \<and> py_eq (PBool True) (PInt 1) \<and> \<not> same_type (PBool True) (PInt 1)"
  by (simp add: make_sure_def get_table_def set_table_def py_in_def py_index_def)

text \<open>
  For every table the value is appended exactly when no entry equals it.
\<close>

lemma make_sure_table:
  "get_table t (snd (make_sure t v ci)) =
     (if py_in v (get_table t ci) then get_table t ci else get_table t ci @ [v])"
  by (cases t) (simp_all add: make_sure_def get_table_def set_table_def Let_def)


subsection \<open>The round trip\<close>

lemma d0: "disassemble dis_3_10 example_info wide_operand = Inr (FunctionBlock example_info 0 1
       [(1, Basic
             \<lparr>block_id = 1,
                instructions =
                  [\<lparr>opcode = 144, arg = PInt 1\<rparr>,
                   \<lparr>opcode = 102, arg = PInt 300\<rparr>,
                   \<lparr>opcode = 83, arg = PNone\<rparr>],
                jump_instruction = None, next_target = None,
                line = Some 1\<rparr>)])"
  by code_simp

lemma g0: "get_instructions (FunctionBlock example_info 0 1
       [(1, Basic
             \<lparr>block_id = 1,
                instructions =
                  [\<lparr>opcode = 144, arg = PInt 1\<rparr>,
                   \<lparr>opcode = 102, arg = PInt 300\<rparr>,
                   \<lparr>opcode = 83, arg = PNone\<rparr>],
                jump_instruction = None, next_target = None,
                line = Some 1\<rparr>)]) = Inr ([], [(0, Some 1)], [\<lparr>opcode = 144, arg = PInt 1\<rparr>,
                   \<lparr>opcode = 102, arg = PInt 300\<rparr>,
                   \<lparr>opcode = 83, arg = PNone\<rparr>])"
  by code_simp

lemma p0: "assemble_pass dis_3_10 example_info [] [(0, Some 1)] 0 [\<lparr>opcode = 144, arg = PInt 1\<rparr>,
                   \<lparr>opcode = 102, arg = PInt 300\<rparr>,
                   \<lparr>opcode = 83, arg = PNone\<rparr>] ([], [], []) = Inr ([], [(144, Some 1), (144, Some 1), (102, Some 44), (83, None)], [(0, Some 1)])"
  by code_simp

lemma l0: "assemble_loop hash dis_3_10 example_info [] [(0, Some 1)] [\<lparr>opcode = 144, arg = PInt 1\<rparr>,
                   \<lparr>opcode = 102, arg = PInt 300\<rparr>,
                   \<lparr>opcode = 83, arg = PNone\<rparr>] None [] None
   = Some (Inr (Some ([(144, Some 1), (144, Some 1), (102, Some 44), (83, None)], [(0, Some 1)])))"
  apply (subst assemble_loop.simps)
  apply (simp only: p0)
  apply (subst assemble_loop.simps)
  apply simp
  done

lemma t0: "to_linetab [(0, Some 1)] (length [(144::nat, Some (1::int)), (144, Some 1), (102, Some 44), (83, None)] * 2) = Inr (Some 0, [8, 1])" by code_simp
lemma b0: "to_bytes [(144, Some 1), (144, Some 1), (102, Some 44), (83, None)] = Inr [144, 1, 144, 1, 102, 44, 83, 0]" by code_simp

text \<open>
  Claim C2 fails on the code: the disassembler keeps an \<open>EXTENDED_ARG\<close> prefix as an
  instruction of its own, and the assembler emits the prefix again for the
  instruction that follows, which carries the combined operand.  The code
  \<open>144 1 102 44 83 0\<close> comes back as \<open>144 1 144 1 102 44 83 0\<close>.
\<close>

theorem round_trip_EXTENDED_ARG:
  "map_option (map_sum id co_code) (round_trip hash dis_3_10 example_info wide_operand)
     = Some (Inr [144, 1, 144, 1, 102, 44, 83, 0])
   \<and> code_bytes wide_operand = [144, 1, 102, 44, 83, 0]"
proof -
  have "code_bytes wide_operand = [144, 1, 102, 44, 83, 0]" by code_simp
  moreover have "round_trip hash dis_3_10 example_info wide_operand
     = Some (Inr (build example_info [144, 1, 144, 1, 102, 44, 83, 0] (Some 0) [8, 1]))"
    by (simp only: round_trip_def d0 sum.case assemble_def Block.case g0 prod.case
        init_targets_def list.map foldl_Nil l0 option.case t0 b0)
  then have "map_option (map_sum id co_code) (round_trip hash dis_3_10 example_info wide_operand)
     = Some (Inr [144, 1, 144, 1, 102, 44, 83, 0])"
    by (simp add: build_def Code.defs CodeInfo.defs)
  ultimately show ?thesis by simp
qed

end
